theory Spec2Isabelle
  imports Main "HOL-Library.AList" "HOL-Library.Char_ord" "HOL-Library.List_Lexorder"
begin

section \<open>The Coq documentation domain: object registry and cross references\<close>

text \<open>
  A shallow embedding of \<^verbatim>\<open>doc/tools/coqrst/coqdomain.py\<close>. Python strings are
  \<^typ>\<open>string\<close> (characters are bytes: the model covers ASCII text). A Python
  dictionary keeps its keys in insertion order, so it is an association list whose keys
  are pairwise distinct: \<open>d[k] = v\<close> is \<^const>\<open>AList.update\<close> (the value is replaced
  in place when the key exists, the pair is appended otherwise), \<open>d.get(k)\<close> is
  \<^const>\<open>map_of\<close>, \<open>del d[k]\<close> is \<^const>\<open>AList.delete\<close>, \<open>d.items()\<close> is the list.
\<close>

subsection \<open>Errors and warnings\<close>

datatype error =
    ValueError              \<comment> \<open>\<open>subdomain_data\<close>: the directive has no subdomain\<close>
  | KeyError                \<comment> \<open>a dictionary subscript with a missing key\<close>
  | IndexError              \<comment> \<open>\<open>itemname[0]\<close> on the empty string\<close>
  | SigError                \<comment> \<open>\<open>ExtensionError(ProductionObject.SIG_ERROR)\<close>\<close>
  | ParseError              \<comment> \<open>\<open>ExtensionError(PARSE_ERROR...)\<close> from the notation parser\<close>
  | NameCountError nat nat  \<comment> \<open>\<open>self.error(ERR.format(len(names), len(sigs)))\<close>\<close>

datatype warning =
    DuplicateObject string string
      \<comment> \<open>\<open>'Duplicate object: {}; other is at {}'\<close>: the name, the other object's document\<close>
  | DuplicateToken "string \<times> string" string
      \<comment> \<open>the same message for a grammar production's key \<open>('token', lhs)\<close>\<close>
  | DuplicateDeclaration string string string
      \<comment> \<open>\<open>env.warn(docname, "Duplicate declaration: '{}' also defined in '{}'")\<close>\<close>

subsection \<open>Target identifiers\<close>

text \<open>\<^verbatim>\<open>return "coq:{}.{}".format(objtype, targetid)\<close>\<close>

definition make_target :: "string \<Rightarrow> string \<Rightarrow> string" where
  "make_target objtype targetid = ''coq:'' @ objtype @ ''.'' @ targetid"

text \<open>The keys of \<^verbatim>\<open>CoqDomain.object_types\<close>, in the order of the source.\<close>

definition object_types :: "string list" where
  "object_types = [''cmd'', ''cmdv'', ''tacn'', ''tacv'', ''opt'', ''flag'', ''table'',
     ''thm'', ''prodn'', ''exn'', ''warn'', ''index'']"

subsection \<open>Strings\<close>

text \<open>
  \<open>str.isspace\<close> on ASCII: tab, line feed, vertical tab, form feed, carriage return,
  the four separators \<open>0x1c\<close> to \<open>0x1f\<close>, and the space.
\<close>

definition isspace :: "char \<Rightarrow> bool" where
  "isspace c = (of_char c \<in> {9, 10, 11, 12, 13, 28, 29, 30, 31, 32 :: nat})"

text \<open>\<open>str.strip()\<close>\<close>

definition strip :: "string \<Rightarrow> string" where
  "strip s = rev (dropWhile isspace (rev (dropWhile isspace s)))"

text \<open>\<open>s.endswith(suffix)\<close> and \<open>s.startswith(prefix)\<close>\<close>

definition endswith :: "string \<Rightarrow> string \<Rightarrow> bool" where
  "endswith s suffix = (length suffix \<le> length s \<and> drop (length s - length suffix) s = suffix)"

definition startswith :: "string \<Rightarrow> string \<Rightarrow> bool" where
  "startswith s pre = (take (length pre) s = pre)"

text \<open>\<open>str.lower()\<close> on ASCII\<close>

definition lower_char :: "char \<Rightarrow> char" where
  "lower_char c =
     (if CHR ''A'' \<le> c \<and> c \<le> CHR ''Z'' then char_of (of_char c + (32 :: nat)) else c)"

definition lower :: "string \<Rightarrow> string" where
  "lower s = map lower_char s"

text \<open>
  \<open>s.split(sep)\<close> for a separator of one character: the pieces between the separators,
  empty pieces included; the empty string gives one empty piece.
\<close>

fun split_on :: "char \<Rightarrow> string \<Rightarrow> string list" where
  "split_on sep [] = [[]]"
| "split_on sep (c # cs) =
     (if c = sep then [] # split_on sep cs
      else (case split_on sep cs of [] \<Rightarrow> [[c]] | p # ps \<Rightarrow> (c # p) # ps))"

text \<open>
  \<open>s.split(maxsplit=n)\<close>, splitting at runs of whitespace: leading whitespace is skipped;
  after \<open>n\<close> pieces the rest of the string, without its leading whitespace, is the last
  piece when it is not empty (its trailing whitespace is kept).
\<close>

fun split_ws :: "nat \<Rightarrow> string \<Rightarrow> string list" where
  "split_ws 0 s = (let r = dropWhile isspace s in if r = [] then [] else [r])"
| "split_ws (Suc n) s =
     (let r = dropWhile isspace s in
      if r = [] then []
      else takeWhile (\<lambda>c. \<not> isspace c) r # split_ws n (dropWhile (\<lambda>c. \<not> isspace c) r))"

subsection \<open>The registry\<close>

text \<open>
  \<^verbatim>\<open>'objects' : { # subdomain -> name -> docname, objtype, targetid\<close>. The host's
  \<open>std\<close> domain maps a key \<open>(kind, name)\<close> to \<open>(docname, targetid)\<close>.
\<close>

type_synonym entry = "string \<times> string \<times> string"
type_synonym objects = "(string \<times> entry) list"
type_synonym registry = "(string \<times> objects) list"
type_synonym std_registry = "((string \<times> string) \<times> (string \<times> string)) list"

definition initial_data :: registry where
  "initial_data = [(''cmd'', []), (''tacn'', []), (''opt'', []), (''flag'', []),
     (''table'', []), (''thm'', []), (''prodn'', []), (''exn'', []), (''warn'', [])]"

text \<open>
  \<open>CoqDomain.directives\<close> gives each object type (the name of the directive) its class.
  \<open>ProductionObject\<close>, the class of \<open>prodn\<close>, overrides \<open>handle_signature\<close>,
  \<open>_target_id\<close>, \<open>_record_name\<close> and \<open>_add_index_entry\<close>, and the names of its objects
  are pairs; the classes of the ten other object types inherit these methods from
  \<open>CoqObject\<close>, and the names of their objects are strings. The two kinds of directive
  are two types, so that each method body of the model is applied only where the
  program dispatches to it.
\<close>

datatype objtype = Cmd | CmdV | Tacn | TacV | Opt | Flag | Table | Thm | Exn | Warn

datatype prodn_type = Prodn

text \<open>
  A directive instance: its object type, which stands for its class, and the document
  being read, \<open>self.env.docname\<close>.
\<close>

record 'c directive =
  self_class :: 'c
  self_docname :: string

text \<open>\<open>self.objtype\<close>: the key of \<open>CoqDomain.directives\<close>.\<close>

fun objtype_name :: "objtype \<Rightarrow> string" where
  "objtype_name Cmd = ''cmd''"
| "objtype_name CmdV = ''cmdv''"
| "objtype_name Tacn = ''tacn''"
| "objtype_name TacV = ''tacv''"
| "objtype_name Opt = ''opt''"
| "objtype_name Flag = ''flag''"
| "objtype_name Table = ''table''"
| "objtype_name Thm = ''thm''"
| "objtype_name Exn = ''exn''"
| "objtype_name Warn = ''warn''"

text \<open>
  The class attribute \<open>subdomain\<close>: \<open>VernacVariantObject\<close> inherits \<open>"cmd"\<close> from
  \<open>VernacObject\<close>, \<open>TacticNotationVariantObject\<close> inherits \<open>"tacn"\<close>.
\<close>

fun subdomain_of :: "objtype \<Rightarrow> string" where
  "subdomain_of Cmd = ''cmd''"
| "subdomain_of CmdV = ''cmd''"
| "subdomain_of Tacn = ''tacn''"
| "subdomain_of TacV = ''tacn''"
| "subdomain_of Opt = ''opt''"
| "subdomain_of Flag = ''flag''"
| "subdomain_of Table = ''table''"
| "subdomain_of Thm = ''thm''"
| "subdomain_of Exn = ''exn''"
| "subdomain_of Warn = ''warn''"

text \<open>The class attribute \<open>index_suffix\<close>.\<close>

fun index_suffix_of :: "objtype \<Rightarrow> string" where
  "index_suffix_of Cmd = ''(cmd)''"
| "index_suffix_of CmdV = ''(cmdv)''"
| "index_suffix_of Tacn = ''(tacn)''"
| "index_suffix_of TacV = ''(tacnv)''"
| "index_suffix_of Opt = ''(opt)''"
| "index_suffix_of Flag = ''(flag)''"
| "index_suffix_of Table = ''(table)''"
| "index_suffix_of Thm = ''(thm)''"
| "index_suffix_of Exn = ''(err)''"
| "index_suffix_of Warn = ''(warn)''"

text \<open>
  \<open>self.objtype\<close>, \<open>self.subdomain\<close> and \<open>self.index_suffix\<close> of a directive whose class
  inherits the methods of \<open>CoqObject\<close>. The two attributes are values that \<open>CoqObject\<close>
  declares as \<open>None\<close> and tests before use.
\<close>

definition self_objtype :: "objtype directive \<Rightarrow> string" where
  "self_objtype d = objtype_name (self_class d)"

definition self_subdomain :: "objtype directive \<Rightarrow> string option" where
  "self_subdomain d = Some (subdomain_of (self_class d))"

definition self_index_suffix :: "objtype directive \<Rightarrow> string option" where
  "self_index_suffix d = Some (index_suffix_of (self_class d))"

text \<open>
  The state a registration works on: \<open>env.domaindata['coq']['objects']\<close>,
  \<open>env.domaindata['std']['objects']\<close>, the keys of \<open>self.state.document.ids\<close> (the
  ids of the document being read), the warnings sent to the reporter, and
  \<open>self.indexnode['entries']\<close> as pairs (index text, target).
\<close>

record env =
  coq_objects :: registry
  std_objects :: std_registry
  document_ids :: "string list"
  reported :: "warning list"
  index_entries :: "(string \<times> string) list"

subsection \<open>\<open>CoqObject\<close>: names and targets\<close>

text \<open>
  The bodies that \<open>CoqObject\<close> gives to \<open>subdomain_data\<close>, \<open>_warn_if_duplicate_name\<close>,
  \<open>_record_name\<close>, \<open>_target_id\<close>, \<open>_add_target\<close>, \<open>_add_index_entry\<close> and
  \<open>add_target_and_index\<close>, on the directives that run them: those of the ten object
  types other than \<open>prodn\<close>.
\<close>

text \<open>
  \<open>subdomain_data\<close>: the dictionary of the directive's subdomain. The model returns the
  key with it, to write the updated dictionary back (Python updates the object in place).
\<close>

definition subdomain_data :: "objtype directive \<Rightarrow> env \<Rightarrow> error + string \<times> objects" where
  "subdomain_data d st =
     (case self_subdomain d of
        None \<Rightarrow> Inl ValueError
      | Some s \<Rightarrow>
          (case map_of (coq_objects st) s of
             None \<Rightarrow> Inl KeyError
           | Some objs \<Rightarrow> Inr (s, objs)))"

definition warn_if_duplicate_name :: "objects \<Rightarrow> string \<Rightarrow> warning list" where
  "warn_if_duplicate_name objs name =
     (case map_of objs name of
        None \<Rightarrow> []
      | Some (other, _, _) \<Rightarrow> [DuplicateObject name other])"

definition record_name :: "objtype directive \<Rightarrow> env \<Rightarrow> string \<Rightarrow> string \<Rightarrow> error + env" where
  "record_name d st name target_id =
     (case subdomain_data d st of
        Inl e \<Rightarrow> Inl e
      | Inr (s, names_in_subdomain) \<Rightarrow>
          Inr (st\<lparr>reported := reported st @ warn_if_duplicate_name names_in_subdomain name,
                  coq_objects :=
                    AList.update s
                      (AList.update name (self_docname d, self_objtype d, target_id) names_in_subdomain)
                      (coq_objects st)\<rparr>))"

text \<open>
  \<open>_target_id\<close>. The sanitizer \<open>nodes.make_id\<close> belongs to the host document engine: it
  is a parameter of the model.
\<close>

definition target_id :: "(string \<Rightarrow> string) \<Rightarrow> objtype directive \<Rightarrow> string \<Rightarrow> string" where
  "target_id make_id d name = make_target (self_objtype d) (make_id name)"

text \<open>
  \<open>_add_target\<close>, with \<open>self._target_id\<close> and \<open>self._record_name\<close> bound to the two
  bodies above, as they are for these directives. \<open>note_explicit_target\<close> is the host's:
  it enters the ids of the node, here the new target id, among the ids of the document.
\<close>

definition add_target ::
  "(string \<Rightarrow> string) \<Rightarrow> objtype directive \<Rightarrow> env \<Rightarrow> string \<Rightarrow> error + env \<times> string" where
  "add_target make_id d st name =
     (let targetid = target_id make_id d name in
      if targetid \<notin> set (document_ids st) then
        (case record_name d (st\<lparr>document_ids := document_ids st @ [targetid]\<rparr>) name targetid of
           Inl e \<Rightarrow> Inl e
         | Inr st' \<Rightarrow> Inr (st', targetid))
      else Inr (st, targetid))"

text \<open>The text of a main index entry, as \<open>_add_index_entry\<close> computes it.\<close>

definition index_text :: "string option \<Rightarrow> string \<Rightarrow> string" where
  "index_text suffix name =
     (let trim = endswith name ''.'' \<and> \<not> endswith name ''...'';
          text = (if trim then butlast name else name)
      in case suffix of
           None \<Rightarrow> text
         | Some sfx \<Rightarrow> if sfx \<noteq> [] then text @ '' '' @ sfx else text)"

definition add_index_entry ::
  "objtype directive \<Rightarrow> string \<Rightarrow> string \<Rightarrow> (string \<times> string) list \<Rightarrow>
   (string \<times> string) list" where
  "add_index_entry d name target entries =
     (if \<not> startswith name ''_'' then entries @ [(index_text (self_index_suffix d) name, target)]
      else entries)"

definition add_target_and_index ::
  "(string \<Rightarrow> string) \<Rightarrow> objtype directive \<Rightarrow> env \<Rightarrow> string option \<Rightarrow>
   error + env \<times> string option" where
  "add_target_and_index make_id d st name =
     (case name of
        None \<Rightarrow> Inr (st, None)
      | Some n \<Rightarrow>
          if n \<noteq> [] then
            (case add_target make_id d st n of
               Inl e \<Rightarrow> Inl e
             | Inr (st', target) \<Rightarrow>
                 Inr (st'\<lparr>index_entries := add_index_entry d n target (index_entries st')\<rparr>,
                      Some target))
          else Inr (st, None))"

text \<open>
  \<open>CoqObject.handle_signature\<close>. Rendering the signature and deriving a name from it are
  the subclass's: both are parameters, and both can fail (the notation parser).
  \<open>names\<close> is \<open>self._names\<close>.
\<close>

definition handle_signature ::
  "(string \<Rightarrow> error + unit) \<Rightarrow> (string \<Rightarrow> error + string option) \<Rightarrow>
   (string \<times> string) list \<Rightarrow> string \<Rightarrow> error + string option" where
  "handle_signature render_signature name_from_signature names signature =
     (case render_signature signature of
        Inl e \<Rightarrow> Inl e
      | Inr _ \<Rightarrow>
          (case map_of names signature of
             Some name \<Rightarrow> Inr (Some name)
           | None \<Rightarrow>
               (case name_from_signature signature of
                  Inl e \<Rightarrow> Inl e
                | Inr None \<Rightarrow> Inr None
                | Inr (Some name) \<Rightarrow>
                    if endswith name ''.'' \<and> \<not> endswith name ''...''
                    then Inr (Some (butlast name))
                    else Inr (Some name))))"

text \<open>\<open>dict(zip(sigs, names))\<close>: the pairs are entered from left to right.\<close>

definition dict_of :: "('k \<times> 'v) list \<Rightarrow> ('k \<times> 'v) list" where
  "dict_of kvs = fold (\<lambda>(k, v) d. AList.update k v d) kvs []"

text \<open>
  \<open>_prepare_names\<close>, from the block's signatures (\<open>self.get_signatures()\<close>, the host's)
  and its \<open>:name:\<close> option; the result is \<open>self._names\<close>.
\<close>

definition prepare_names :: "string list \<Rightarrow> string option \<Rightarrow> error + (string \<times> string) list" where
  "prepare_names sigs name_option =
     (case name_option of
        None \<Rightarrow> Inr []
      | Some ns \<Rightarrow>
          (let names = map strip (split_on CHR '';'' ns) in
           if length names \<noteq> length sigs
           then Inl (NameCountError (length names) (length sigs))
           else Inr (dict_of (zip sigs names))))"

subsection \<open>\<open>ProductionObject\<close>: grammar productions\<close>

text \<open>
  The directive \<open>prodn\<close>. Its names are the pairs \<open>('token', lhs)\<close>; its \<open>_target_id\<close> and
  \<open>_record_name\<close> replace those of \<open>CoqObject\<close>, so that a production is entered in the
  objects of the host's \<open>std\<close> domain and never in \<open>data['objects']['prodn']\<close>.
\<close>

text \<open>
  \<open>ProductionObject.handle_signature\<close>. The right-hand side goes through the notation
  parser (\<open>notation_to_sphinx\<close>), a parameter that can fail. The result is the name
  \<open>('token', lhs)\<close>, or \<open>None\<close>.
\<close>

definition prodn_handle_signature ::
  "(string \<Rightarrow> error + unit) \<Rightarrow> string \<Rightarrow> error + (string \<times> string) option" where
  "prodn_handle_signature notation_to_sphinx signature =
     (let nsplits = 2; parts = split_ws nsplits signature in
      if length parts \<noteq> 3 then Inl SigError
      else
        (let lhs = strip (parts ! 0); op = strip (parts ! 1); rhs = strip (parts ! 2) in
         if op \<notin> set [''::='', ''+=''] then Inl SigError
         else
           (case notation_to_sphinx rhs of
              Inl e \<Rightarrow> Inl e
            | Inr _ \<Rightarrow> Inr (if op = ''::='' then Some (''token'', lhs) else None))))"

definition prodn_target_id :: "string \<times> string \<Rightarrow> string" where
  "prodn_target_id name = ''grammar-token-'' @ snd name"

definition prodn_record_name :: "prodn_type directive \<Rightarrow> env \<Rightarrow> string \<times> string \<Rightarrow> string \<Rightarrow> env" where
  "prodn_record_name d st name targetid =
     st\<lparr>reported := reported st @
           (case map_of (std_objects st) name of
              None \<Rightarrow> []
            | Some (other, _) \<Rightarrow> [DuplicateToken name other]),
        std_objects := AList.update name (self_docname d, targetid) (std_objects st)\<rparr>"

definition prodn_add_target :: "prodn_type directive \<Rightarrow> env \<Rightarrow> string \<times> string \<Rightarrow> env \<times> string" where
  "prodn_add_target d st name =
     (let targetid = prodn_target_id name in
      if targetid \<notin> set (document_ids st) then
        (prodn_record_name d (st\<lparr>document_ids := document_ids st @ [targetid]\<rparr>) name targetid,
         targetid)
      else (st, targetid))"

text \<open>
  The inherited \<open>_add_target\<close> and \<open>add_target_and_index\<close> with the overrides bound: a
  tuple is true, \<open>None\<close> is not, and \<open>_add_index_entry\<close> does nothing.
\<close>

definition prodn_add_target_and_index ::
  "prodn_type directive \<Rightarrow> env \<Rightarrow> (string \<times> string) option \<Rightarrow> env \<times> string option" where
  "prodn_add_target_and_index d st name =
     (case name of
        None \<Rightarrow> (st, None)
      | Some n \<Rightarrow> (case prodn_add_target d st n of (st', target) \<Rightarrow> (st', Some target)))"

subsection \<open>\<open>CoqSubdomainsIndex\<close>\<close>

text \<open>
  An index entry \<open>[itemname, 0, docname, anchor, '', '', '']\<close>: the three constant empty
  strings are left out.
\<close>

type_synonym index_entry = "string \<times> nat \<times> string \<times> string"

text \<open>
  \<open>docnames and docname not in docnames\<close>: \<open>None\<close> and the empty list are both false.
\<close>

definition skipped :: "string list option \<Rightarrow> string \<Rightarrow> bool" where
  "skipped docnames docname =
     (case docnames of None \<Rightarrow> False | Some ds \<Rightarrow> ds \<noteq> [] \<and> docname \<notin> set ds)"

text \<open>
  The loop of \<open>generate\<close> over the sorted items; \<open>content\<close> is the
  \<open>defaultdict(list)\<close>, whose missing key reads as the empty list.
\<close>

fun bucket_items ::
  "string list option \<Rightarrow> (string \<times> entry) list \<Rightarrow> (string \<times> index_entry list) list \<Rightarrow>
   error + (string \<times> index_entry list) list" where
  "bucket_items docnames [] content = Inr content"
| "bucket_items docnames ((itemname, (docname, _, anchor)) # rest) content =
     (if skipped docnames docname then bucket_items docnames rest content
      else
        (case itemname of
           [] \<Rightarrow> Inl IndexError
         | c # _ \<Rightarrow>
             (let key = lower [c];
                  entries = (case map_of content key of None \<Rightarrow> [] | Some es \<Rightarrow> es)
              in bucket_items docnames rest
                   (AList.update key (entries @ [(itemname, 0, docname, anchor)]) content))))"

text \<open>\<open>chain(*(objects[subdomain].items() for subdomain in subdomains))\<close>\<close>

fun chain_items :: "registry \<Rightarrow> string list \<Rightarrow> error + (string \<times> entry) list" where
  "chain_items objs [] = Inr []"
| "chain_items objs (s # ss) =
     (case map_of objs s of
        None \<Rightarrow> Inl KeyError
      | Some items \<Rightarrow>
          (case chain_items objs ss of Inl e \<Rightarrow> Inl e | Inr others \<Rightarrow> Inr (items @ others)))"

text \<open>
  \<open>generate\<close>: \<open>sorted\<close> is stable, as \<^const>\<open>sort_key\<close> is; the keys of \<open>content\<close>
  are distinct, so \<open>sorted(content.items())\<close> orders the pairs by their keys.
\<close>

definition generate ::
  "string list \<Rightarrow> registry \<Rightarrow> string list option \<Rightarrow>
   error + (string \<times> index_entry list) list \<times> bool" where
  "generate subdomains objs docnames =
     (case chain_items objs subdomains of
        Inl e \<Rightarrow> Inl e
      | Inr items \<Rightarrow>
          (case bucket_items docnames (sort_key (\<lambda>x. lower (fst x)) items) [] of
             Inl e \<Rightarrow> Inl e
           | Inr content \<Rightarrow> (let collapse = False in Inr (sort_key fst content, collapse))))"

text \<open>The indices of the domain: \<open>name\<close>, \<open>localname\<close>, \<open>shortname\<close>, \<open>subdomains\<close>.\<close>

record coq_index =
  idx_name :: string
  localname :: string
  shortname :: string
  idx_subdomains :: "string list"

definition indices :: "coq_index list" where
  "indices =
     [\<lparr>idx_name = ''cmdindex'', localname = ''Command Index'', shortname = ''commands'',
        idx_subdomains = [''cmd'']\<rparr>,
      \<lparr>idx_name = ''tacindex'', localname = ''Tactic Index'', shortname = ''tactics'',
        idx_subdomains = [''tacn'']\<rparr>,
      \<lparr>idx_name = ''optindex'', localname = ''Flags, options and Tables Index'',
        shortname = ''options'', idx_subdomains = [''flag'', ''opt'', ''table'']\<rparr>,
      \<lparr>idx_name = ''thmindex'', localname = ''Gallina Index'', shortname = ''theorems'',
        idx_subdomains = [''thm'']\<rparr>,
      \<lparr>idx_name = ''exnindex'', localname = ''Errors and Warnings Index'',
        shortname = ''errors'', idx_subdomains = [''exn'', ''warn'']\<rparr>]"

subsection \<open>\<open>CoqDomain\<close>: merge, resolve, clear\<close>

definition find_index_by_name :: "string \<Rightarrow> coq_index option" where
  "find_index_by_name targetid = find (\<lambda>index. idx_name index = targetid) indices"

text \<open>
  The loops of \<open>merge_domaindata\<close>: the inner one over \<open>their_objects.items()\<close>, the outer
  one over \<open>otherdata['objects'].items()\<close>. The warnings are collected in order.
\<close>

fun merge_objects ::
  "string list \<Rightarrow> (string \<times> entry) list \<Rightarrow> objects \<Rightarrow> warning list \<Rightarrow> objects \<times> warning list" where
  "merge_objects docnames [] our_objects ws = (our_objects, ws)"
| "merge_objects docnames ((name, (docname, objtype, targetid)) # rest) our_objects ws =
     (if docname \<in> set docnames then
        merge_objects docnames rest
          (AList.update name (docname, objtype, targetid) our_objects)
          (ws @ (case map_of our_objects name of
                   None \<Rightarrow> []
                 | Some (other, _, _) \<Rightarrow> [DuplicateDeclaration docname name other]))
      else merge_objects docnames rest our_objects ws)"

fun merge_subdomains ::
  "string list \<Rightarrow> (string \<times> objects) list \<Rightarrow> registry \<Rightarrow> warning list \<Rightarrow>
   error + registry \<times> warning list" where
  "merge_subdomains docnames [] ours ws = Inr (ours, ws)"
| "merge_subdomains docnames ((subdomain, their_objects) # rest) ours ws =
     (case map_of ours subdomain of
        None \<Rightarrow> Inl KeyError
      | Some our_objects \<Rightarrow>
          (case merge_objects docnames their_objects our_objects ws of
             (our_objects', ws') \<Rightarrow>
               merge_subdomains docnames rest (AList.update subdomain our_objects' ours) ws'))"

definition merge_domaindata ::
  "registry \<Rightarrow> string list \<Rightarrow> registry \<Rightarrow> error + registry \<times> warning list" where
  "merge_domaindata ours docnames otherdata = merge_subdomains docnames otherdata ours []"

text \<open>
  \<open>resolve_xref\<close>: the reference node made by \<open>make_refnode\<close> is kept as the target
  document, the target id and the title.
\<close>

datatype refnode = RefNode string string string

definition resolve_xref :: "registry \<Rightarrow> string \<Rightarrow> string \<Rightarrow> error + refnode option" where
  "resolve_xref objs role targetname =
     (if role = ''index'' then
        (case find_index_by_name targetname of
           Some index \<Rightarrow> Inr (Some (RefNode (''coq-'' @ idx_name index) [] (localname index)))
         | None \<Rightarrow> Inr None)
      else
        (case map_of objs role of
           None \<Rightarrow> Inl KeyError
         | Some subdomain_objects \<Rightarrow>
             (case map_of subdomain_objects targetname of
                Some (todocname, _, targetid) \<Rightarrow> Inr (Some (RefNode todocname targetid targetname))
              | None \<Rightarrow> Inr None)))"

text \<open>
  \<open>clear_doc\<close>: for each subdomain the loop runs over a copy of the items,
  \<open>list(subdomain_objects.items())\<close>, and deletes from the dictionary.
\<close>

fun clear_objects :: "string \<Rightarrow> (string \<times> entry) list \<Rightarrow> objects \<Rightarrow> objects" where
  "clear_objects docname_to_clear [] subdomain_objects = subdomain_objects"
| "clear_objects docname_to_clear ((name, (docname, _, _)) # rest) subdomain_objects =
     clear_objects docname_to_clear rest
       (if docname = docname_to_clear then AList.delete name subdomain_objects
        else subdomain_objects)"

definition clear_doc :: "registry \<Rightarrow> string \<Rightarrow> registry" where
  "clear_doc objs docname_to_clear =
     map (\<lambda>(subdomain, subdomain_objects).
            (subdomain, clear_objects docname_to_clear subdomain_objects subdomain_objects))
       objs"

subsection \<open>Directives of the domain and the initial state\<close>

text \<open>
  Instances of some classes of \<open>CoqDomain.directives\<close>, reading a document: the directives
  \<open>cmd\<close>, \<open>cmdv\<close>, \<open>tacn\<close>, \<open>tacv\<close>, \<open>thm\<close> and \<open>prodn\<close>.
\<close>

definition VernacObject :: "string \<Rightarrow> objtype directive" where
  "VernacObject doc = \<lparr>self_class = Cmd, self_docname = doc\<rparr>"

definition VernacVariantObject :: "string \<Rightarrow> objtype directive" where
  "VernacVariantObject doc = \<lparr>self_class = CmdV, self_docname = doc\<rparr>"

definition TacticNotationObject :: "string \<Rightarrow> objtype directive" where
  "TacticNotationObject doc = \<lparr>self_class = Tacn, self_docname = doc\<rparr>"

definition TacticNotationVariantObject :: "string \<Rightarrow> objtype directive" where
  "TacticNotationVariantObject doc = \<lparr>self_class = TacV, self_docname = doc\<rparr>"

definition GallinaObject :: "string \<Rightarrow> objtype directive" where
  "GallinaObject doc = \<lparr>self_class = Thm, self_docname = doc\<rparr>"

definition ProductionObject :: "string \<Rightarrow> prodn_type directive" where
  "ProductionObject doc = \<lparr>self_class = Prodn, self_docname = doc\<rparr>"

text \<open>The state before any document is read: \<open>initial_data\<close> and nothing else.\<close>

definition initial_env :: env where
  "initial_env = \<lparr>coq_objects = initial_data, std_objects = [], document_ids = [],
     reported = [], index_entries = []\<rparr>"

text \<open>The entry of a name in a subdomain of a registry, if there is one.\<close>

definition lookup :: "registry \<Rightarrow> string \<Rightarrow> string \<Rightarrow> entry option" where
  "lookup objs s name = (case map_of objs s of None \<Rightarrow> None | Some names \<Rightarrow> map_of names name)"

subsection \<open>Notions for the statements about merging\<close>

text \<open>
  The warnings a merge owes, as the specification words them: for each entry of the batch,
  in order, whose document is in the restriction and whose name the registry already holds
  in that subdomain, one warning that cites the document of the registry's entry.
\<close>

definition duplicate_declarations :: "string list \<Rightarrow> objects \<Rightarrow> objects \<Rightarrow> warning list" where
  "duplicate_declarations docnames our_objects their_objects =
     concat (map (\<lambda>(name, (docname, _, _)).
                    if docname \<in> set docnames then
                      (case map_of our_objects name of
                         None \<Rightarrow> []
                       | Some (other, _, _) \<Rightarrow> [DuplicateDeclaration docname name other])
                    else [])
               their_objects)"

definition merge_warnings :: "registry \<Rightarrow> string list \<Rightarrow> registry \<Rightarrow> warning list" where
  "merge_warnings ours docnames otherdata =
     concat (map (\<lambda>(subdomain, their_objects).
                    case map_of ours subdomain of
                      None \<Rightarrow> []
                    | Some our_objects \<Rightarrow> duplicate_declarations docnames our_objects their_objects)
               otherdata)"

text \<open>
  The entries of a batch that a restriction lets in, and entering a list of pairs into a
  dictionary from left to right.
\<close>

definition in_docnames :: "string list \<Rightarrow> string \<times> entry \<Rightarrow> bool" where
  "in_docnames docnames item = (fst (snd item) \<in> set docnames)"

definition update_all :: "('k \<times> 'v) list \<Rightarrow> ('k \<times> 'v) list \<Rightarrow> ('k \<times> 'v) list" where
  "update_all kvs d = fold (\<lambda>(k, v) d. AList.update k v d) kvs d"

subsection \<open>Notions for the statements about the indices\<close>

text \<open>
  The entry made from an item, the key of its bucket, the step of the loop on the
  \<open>defaultdict\<close>, and the items that a restriction keeps.
\<close>

definition to_entry :: "string \<times> entry \<Rightarrow> index_entry" where
  "to_entry item = (fst item, 0, fst (snd item), snd (snd (snd item)))"

definition bucket_key :: "index_entry \<Rightarrow> string" where
  "bucket_key e = lower (take 1 (fst e))"

definition add_entry ::
  "index_entry \<Rightarrow> (string \<times> index_entry list) list \<Rightarrow> (string \<times> index_entry list) list" where
  "add_entry e content =
     AList.update (bucket_key e)
       ((case map_of content (bucket_key e) of None \<Rightarrow> [] | Some es \<Rightarrow> es) @ [e]) content"

definition listed :: "string list option \<Rightarrow> string \<times> entry \<Rightarrow> bool" where
  "listed docnames item = (\<not> skipped docnames (fst (snd item)))"

section \<open>Properties\<close>

subsection \<open>Target identifiers\<close>

lemma append_dot_eqD:
  assumes "t1 @ CHR ''.'' # s1 = t2 @ CHR ''.'' # s2"
    and "CHR ''.'' \<notin> set t1" and "CHR ''.'' \<notin> set t2"
  shows "t1 = t2 \<and> s1 = s2"
proof -
  have stop: "takeWhile (\<lambda>c. c \<noteq> CHR ''.'') (t @ CHR ''.'' # s) = t"
    if "CHR ''.'' \<notin> set t" for t s :: string
    using that by (induction t) auto
  have "takeWhile (\<lambda>c. c \<noteq> CHR ''.'') (t1 @ CHR ''.'' # s1) = t1"
    using assms(2) by (rule stop)
  moreover have "takeWhile (\<lambda>c. c \<noteq> CHR ''.'') (t2 @ CHR ''.'' # s2) = t2"
    using assms(3) by (rule stop)
  ultimately have "t1 = t2" using assms(1) by simp
  with assms(1) show ?thesis by simp
qed

lemma object_types_dot_free: "\<forall>t \<in> set object_types. CHR ''.'' \<notin> set t"
  by (simp add: object_types_def)

text \<open>
  Claim C2: \<open>make_target\<close> is a function that returns
  \<open>"coq:" + object_type + "." + slug\<close>, and on the object types of the domain (more
  generally, on object types without a period) it is injective: two pairs that give the
  same identifier are the same pair.
\<close>

theorem make_target_injective:
  "make_target t1 s1 = ''coq:'' @ t1 @ ''.'' @ s1 \<and>
   (t1 \<in> set object_types \<longrightarrow> t2 \<in> set object_types \<longrightarrow>
      make_target t1 s1 = make_target t2 s2 \<longrightarrow> t1 = t2 \<and> s1 = s2) \<and>
   (CHR ''.'' \<notin> set t1 \<longrightarrow> CHR ''.'' \<notin> set t2 \<longrightarrow>
      make_target t1 s1 = make_target t2 s2 \<longrightarrow> t1 = t2 \<and> s1 = s2)"
proof -
  have dot_free: "t1 = t2 \<and> s1 = s2"
    if "CHR ''.'' \<notin> set t1" "CHR ''.'' \<notin> set t2" "make_target t1 s1 = make_target t2 s2"
    using that append_dot_eqD [of t1 s1 t2 s2] by (simp add: make_target_def)
  have "t1 = t2 \<and> s1 = s2"
    if "t1 \<in> set object_types" "t2 \<in> set object_types"
      "make_target t1 s1 = make_target t2 s2"
  proof -
    from that(1,2) object_types_dot_free
    have "CHR ''.'' \<notin> set t1" "CHR ''.'' \<notin> set t2" by blast+
    then show ?thesis using that(3) by (rule dot_free)
  qed
  with dot_free show ?thesis by (simp add: make_target_def)
qed

theorem make_target_injective_witness:
  "''cmd'' \<in> set object_types \<and> ''tacn'' \<in> set object_types \<and>
   make_target ''cmd'' ''simpl'' = ''coq:cmd.simpl'' \<and>
   make_target ''cmd'' ''simpl'' \<noteq> make_target ''tacn'' ''simpl'' \<and>
   make_target ''cmd'' ''simpl'' \<noteq> make_target ''cmd'' ''auto''"
proof -
  have types: "''cmd'' \<in> set object_types" "''tacn'' \<in> set object_types"
    by (simp_all add: object_types_def)
  have formula: "make_target ''cmd'' ''simpl'' = ''coq:cmd.simpl''"
    using make_target_injective [of "''cmd''" "''simpl''"] by simp
  have a: "make_target ''cmd'' ''simpl'' \<noteq> make_target ''tacn'' ''simpl''"
    using make_target_injective [of "''cmd''" "''simpl''" "''tacn''" "''simpl''"] types by auto
  have b: "make_target ''cmd'' ''simpl'' \<noteq> make_target ''cmd'' ''auto''"
    using make_target_injective [of "''cmd''" "''simpl''" "''cmd''" "''auto''"] types by auto
  from types formula a b show ?thesis by simp
qed

subsection \<open>Trailing periods of derived names\<close>

lemma endswith_iff: "endswith s suffix \<longleftrightarrow> (\<exists>p. s = p @ suffix)"
proof
  assume "endswith s suffix"
  then have "s = take (length s - length suffix) s @ suffix"
    by (metis append_take_drop_id endswith_def)
  then show "\<exists>p. s = p @ suffix" ..
next
  assume "\<exists>p. s = p @ suffix"
  then show "endswith s suffix" by (auto simp add: endswith_def)
qed

text \<open>
  Claim C6: when the name is derived from the signature (the signature renders, and
  \<open>self._names\<close> has no explicit name for it), a derived name that ends with a period but
  not with three periods loses exactly that one period; a derived name that ends with
  three periods is left as it is (and so is a name that does not end with a period).
\<close>

theorem handle_signature_trailing_period:
  assumes "render_signature signature = Inr u"
    and "map_of names signature = None"
    and "name_from_signature signature = Inr (Some name)"
  shows "(\<forall>base. name = base @ ''.'' \<longrightarrow> (\<nexists>p. name = p @ ''...'') \<longrightarrow>
            handle_signature render_signature name_from_signature names signature =
              Inr (Some base)) \<and>
         (\<forall>p. name = p @ ''...'' \<longrightarrow>
            handle_signature render_signature name_from_signature names signature =
              Inr (Some name)) \<and>
         ((\<nexists>base. name = base @ ''.'') \<longrightarrow>
            handle_signature render_signature name_from_signature names signature =
              Inr (Some name))"
  using assms by (auto simp add: handle_signature_def endswith_iff)

theorem handle_signature_trailing_period_witness:
  "handle_signature (\<lambda>_. Inr ()) (\<lambda>s. Inr (Some s)) [] ''Set Foo.'' = Inr (Some ''Set Foo'') \<and>
   handle_signature (\<lambda>_. Inr ()) (\<lambda>s. Inr (Some s)) [] ''rewrite ...'' = Inr (Some ''rewrite ...'') \<and>
   handle_signature (\<lambda>_. Inr ()) (\<lambda>s. Inr (Some s)) [] ''simpl'' = Inr (Some ''simpl'')"
proof -
  let ?hs = "handle_signature (\<lambda>_. Inr ()) (\<lambda>s. Inr (Some s)) []"
  have no_ellipsis: "\<nexists>p. ''Set Foo.'' = p @ ''...''"
  proof -
    have "\<not> endswith ''Set Foo.'' ''...''" by code_simp
    then show ?thesis by (simp add: endswith_iff)
  qed
  have no_period: "\<nexists>base. ''simpl'' = base @ ''.''"
  proof -
    have "\<not> endswith ''simpl'' ''.''" by code_simp
    then show ?thesis by (simp add: endswith_iff)
  qed
  have a: "?hs ''Set Foo.'' = Inr (Some ''Set Foo'')"
    using handle_signature_trailing_period
      [of "\<lambda>_. Inr ()" "''Set Foo.''" "()" "[]" "\<lambda>s. Inr (Some s)" "''Set Foo.''"] no_ellipsis
    by simp
  have b: "?hs ''rewrite ...'' = Inr (Some ''rewrite ...'')"
    using handle_signature_trailing_period
      [of "\<lambda>_. Inr ()" "''rewrite ...''" "()" "[]" "\<lambda>s. Inr (Some s)" "''rewrite ...''"]
    by simp
  have c: "?hs ''simpl'' = Inr (Some ''simpl'')"
    using handle_signature_trailing_period
      [of "\<lambda>_. Inr ()" "''simpl''" "()" "[]" "\<lambda>s. Inr (Some s)" "''simpl''"] no_period
    by simp
  from a b c show ?thesis by simp
qed

subsection \<open>Registering a name\<close>

lemma add_target_result:
  assumes "add_target make_id d st name = Inr (st', t)"
  shows "t = target_id make_id d name \<and> t \<in> set (document_ids st')"
  using assms
  by (auto simp add: add_target_def record_name_def Let_def
      split: if_splits sum.splits prod.splits)

text \<open>
  Claim C10: when the target id computed for a name is already among the ids of the
  document, \<open>_add_target\<close> changes nothing (no entry recorded, no warning) and returns
  that id; so after a first registration, a second one in the same document with the
  same object type and the same slug leaves the state, and the first entry, as they are.
\<close>

theorem add_target_existing_id:
  "(target_id make_id d name \<in> set (document_ids st) \<longrightarrow>
      add_target make_id d st name = Inr (st, target_id make_id d name)) \<and>
   (add_target make_id d st name = Inr (st1, t) \<longrightarrow>
      self_objtype d2 = self_objtype d \<longrightarrow> make_id name2 = make_id name \<longrightarrow>
      add_target make_id d2 st1 name2 = Inr (st1, t))"
proof (intro conjI impI)
  assume "target_id make_id d name \<in> set (document_ids st)"
  then show "add_target make_id d st name = Inr (st, target_id make_id d name)"
    by (simp add: add_target_def)
next
  assume first: "add_target make_id d st name = Inr (st1, t)"
    and same: "self_objtype d2 = self_objtype d" "make_id name2 = make_id name"
  from same have "target_id make_id d2 name2 = target_id make_id d name"
    by (simp add: target_id_def)
  with add_target_result [OF first]
  show "add_target make_id d2 st1 name2 = Inr (st1, t)"
    by (auto simp add: add_target_def Let_def)
qed

theorem add_target_existing_id_witness:
  "add_target lower (VernacObject ''vernac'') initial_env ''Print All'' =
     Inr (initial_env\<lparr>coq_objects :=
            AList.update ''cmd'' [(''Print All'', ''vernac'', ''cmd'', ''coq:cmd.print all'')]
              initial_data,
          document_ids := [''coq:cmd.print all'']\<rparr>, ''coq:cmd.print all'') \<and>
   add_target lower (VernacObject ''vernac'')
     (initial_env\<lparr>coq_objects :=
            AList.update ''cmd'' [(''Print All'', ''vernac'', ''cmd'', ''coq:cmd.print all'')]
              initial_data,
          document_ids := [''coq:cmd.print all'']\<rparr>) ''print all'' =
     Inr (initial_env\<lparr>coq_objects :=
            AList.update ''cmd'' [(''Print All'', ''vernac'', ''cmd'', ''coq:cmd.print all'')]
              initial_data,
          document_ids := [''coq:cmd.print all'']\<rparr>, ''coq:cmd.print all'')"
proof -
  let ?d = "VernacObject ''vernac''"
  let ?st1 = "initial_env\<lparr>coq_objects :=
            AList.update ''cmd'' [(''Print All'', ''vernac'', ''cmd'', ''coq:cmd.print all'')]
              initial_data,
          document_ids := [''coq:cmd.print all'']\<rparr>"
  have first: "add_target lower ?d initial_env ''Print All'' = Inr (?st1, ''coq:cmd.print all'')"
    by code_simp
  have slug: "lower ''print all'' = lower ''Print All''" by code_simp
  from add_target_existing_id
    [of lower ?d "''Print All''" initial_env ?st1 "''coq:cmd.print all''" ?d "''print all''"]
    first slug
  have "add_target lower ?d ?st1 ''print all'' = Inr (?st1, ''coq:cmd.print all'')"
    by blast
  with first show ?thesis by simp
qed

text \<open>
  Claim C1, as stated, fails: the second of two registrations of one name in one
  document, with one object type, finds its target id among the ids of the document; it
  reports no duplicate, and nothing is written.
\<close>

theorem add_target_twice_same_document:
  "add_target id (TacticNotationObject ''tactics'') initial_env ''simpl'' =
     Inr (initial_env\<lparr>coq_objects :=
            AList.update ''tacn'' [(''simpl'', ''tactics'', ''tacn'', ''coq:tacn.simpl'')]
              initial_data,
          document_ids := [''coq:tacn.simpl'']\<rparr>, ''coq:tacn.simpl'') \<and>
   add_target id (TacticNotationObject ''tactics'')
     (initial_env\<lparr>coq_objects :=
            AList.update ''tacn'' [(''simpl'', ''tactics'', ''tacn'', ''coq:tacn.simpl'')]
              initial_data,
          document_ids := [''coq:tacn.simpl'']\<rparr>) ''simpl'' =
     Inr (initial_env\<lparr>coq_objects :=
            AList.update ''tacn'' [(''simpl'', ''tactics'', ''tacn'', ''coq:tacn.simpl'')]
              initial_data,
          document_ids := [''coq:tacn.simpl'']\<rparr>, ''coq:tacn.simpl'') \<and>
   reported (initial_env\<lparr>coq_objects :=
            AList.update ''tacn'' [(''simpl'', ''tactics'', ''tacn'', ''coq:tacn.simpl'')]
              initial_data,
          document_ids := [''coq:tacn.simpl'']\<rparr>) = []"
  by code_simp

lemma record_name_known:
  assumes "self_subdomain d = Some s" and "map_of (coq_objects st) s = Some objs"
  shows "record_name d st name t =
     Inr (st\<lparr>reported := reported st @ warn_if_duplicate_name objs name,
            coq_objects := AList.update s (AList.update name (self_docname d, self_objtype d, t) objs)
              (coq_objects st)\<rparr>)"
  using assms by (simp add: record_name_def subdomain_data_def)

lemma add_target_fresh:
  assumes "self_subdomain d = Some s" and "map_of (coq_objects st) s = Some objs"
    and "target_id make_id d name \<notin> set (document_ids st)"
  shows "add_target make_id d st name =
     Inr (st\<lparr>document_ids := document_ids st @ [target_id make_id d name],
            reported := reported st @ warn_if_duplicate_name objs name,
            coq_objects := AList.update s
              (AList.update name (self_docname d, self_objtype d, target_id make_id d name) objs)
              (coq_objects st)\<rparr>, target_id make_id d name)"
  using assms by (simp add: add_target_def Let_def record_name_known [where objs = objs])

lemma subdomain_not_prodn:
  assumes "self_subdomain d = Some s"
  shows "s \<noteq> ''prodn'' \<and> s \<noteq> ''index''"
  using assms by (cases "self_class d") (auto simp add: self_subdomain_def)

text \<open>
  Claim C1, amended: grammar productions apart (their directive enters its names in the
  standard token namespace, not in a subdomain of the registry), two registrations of one
  name in one subdomain, each with a target id that is not yet among the ids of the
  document it is read in (two documents, or two object types of the subdomain), both
  succeed; the second reports exactly one duplicate, which cites the document of the
  first, and the registry then maps the name to the second registration's tuple, which is
  what a reference resolves to. The subdomain of such directives is never \<open>prodn\<close>.
\<close>

theorem add_target_duplicate_name:
  assumes sub: "self_subdomain d1 = Some s" "self_subdomain d2 = Some s"
    and known: "map_of (coq_objects st0) s = Some objs0"
    and fresh1: "target_id make_id d1 name \<notin> set (document_ids st0)"
    and fresh2: "target_id make_id d2 name \<notin> set ids2"
  shows "s \<noteq> ''prodn'' \<and>
   (\<exists>st1 st2.
     add_target make_id d1 st0 name = Inr (st1, target_id make_id d1 name) \<and>
     add_target make_id d2 (st1\<lparr>document_ids := ids2\<rparr>) name = Inr (st2, target_id make_id d2 name) \<and>
     reported st2 = reported st1 @ [DuplicateObject name (self_docname d1)] \<and>
     (map_of objs0 name = None \<longrightarrow> reported st1 = reported st0) \<and>
     lookup (coq_objects st2) s name =
       Some (self_docname d2, self_objtype d2, target_id make_id d2 name) \<and>
     resolve_xref (coq_objects st2) s name =
       Inr (Some (RefNode (self_docname d2) (target_id make_id d2 name) name)))"
proof -
  from subdomain_not_prodn [OF sub(1)] have not_prodn: "s \<noteq> ''prodn''"
    and role: "s \<noteq> ''index''" by simp_all
  let ?t1 = "target_id make_id d1 name" and ?t2 = "target_id make_id d2 name"
  let ?objs1 = "AList.update name (self_docname d1, self_objtype d1, ?t1) objs0"
  let ?st1 = "st0\<lparr>document_ids := document_ids st0 @ [?t1],
            reported := reported st0 @ warn_if_duplicate_name objs0 name,
            coq_objects := AList.update s ?objs1 (coq_objects st0)\<rparr>"
  let ?st1' = "?st1\<lparr>document_ids := ids2\<rparr>"
  let ?objs2 = "AList.update name (self_docname d2, self_objtype d2, ?t2) ?objs1"
  let ?st2 = "?st1'\<lparr>document_ids := document_ids ?st1' @ [?t2],
            reported := reported ?st1' @ warn_if_duplicate_name ?objs1 name,
            coq_objects := AList.update s ?objs2 (coq_objects ?st1')\<rparr>"
  have first: "add_target make_id d1 st0 name = Inr (?st1, ?t1)"
    using sub(1) known fresh1 by (rule add_target_fresh)
  have known1: "map_of (coq_objects ?st1') s = Some ?objs1"
    by (simp add: update_conv')
  have fresh2': "?t2 \<notin> set (document_ids ?st1')"
    using fresh2 by simp
  have second: "add_target make_id d2 ?st1' name = Inr (?st2, ?t2)"
    using sub(2) known1 fresh2' by (rule add_target_fresh)
  have warn: "warn_if_duplicate_name ?objs1 name = [DuplicateObject name (self_docname d1)]"
    by (simp add: warn_if_duplicate_name_def update_conv')
  have rep: "reported ?st2 = reported ?st1 @ [DuplicateObject name (self_docname d1)]"
    using warn by simp
  have quiet: "map_of objs0 name = None \<longrightarrow> reported ?st1 = reported st0"
    by (simp add: warn_if_duplicate_name_def)
  have look: "lookup (coq_objects ?st2) s name = Some (self_docname d2, self_objtype d2, ?t2)"
    by (simp add: lookup_def update_conv')
  have res: "resolve_xref (coq_objects ?st2) s name = Inr (Some (RefNode (self_docname d2) ?t2 name))"
    using role by (simp add: resolve_xref_def update_conv')
  show ?thesis
  proof (intro exI conjI)
    show "s \<noteq> ''prodn''" by (rule not_prodn)
    show "add_target make_id d1 st0 name = Inr (?st1, ?t1)" by (rule first)
    show "add_target make_id d2 (?st1\<lparr>document_ids := ids2\<rparr>) name = Inr (?st2, ?t2)"
      by (rule second)
    show "reported ?st2 = reported ?st1 @ [DuplicateObject name (self_docname d1)]" by (rule rep)
    show "map_of objs0 name = None \<longrightarrow> reported ?st1 = reported st0" by (rule quiet)
    show "lookup (coq_objects ?st2) s name = Some (self_docname d2, self_objtype d2, ?t2)"
      by (rule look)
    show "resolve_xref (coq_objects ?st2) s name = Inr (Some (RefNode (self_docname d2) ?t2 name))"
      by (rule res)
  qed
qed

text \<open>
  The guard is inherited: with the overrides of \<open>ProductionObject\<close> bound, a target id
  that the document already has leaves the state as it is, too.
\<close>

lemma prodn_add_target_existing_id:
  assumes "prodn_target_id name \<in> set (document_ids st)"
  shows "prodn_add_target d st name = (st, prodn_target_id name)"
  using assms by (simp add: prodn_add_target_def)

theorem add_target_duplicate_name_witness:
  "\<exists>st1 st2.
     add_target id (TacticNotationObject ''tactics'') initial_env ''simpl'' =
       Inr (st1, ''coq:tacn.simpl'') \<and>
     add_target id (TacticNotationObject ''ltac'') (st1\<lparr>document_ids := []\<rparr>) ''simpl'' =
       Inr (st2, ''coq:tacn.simpl'') \<and>
     reported st1 = [] \<and>
     reported st2 = [DuplicateObject ''simpl'' ''tactics''] \<and>
     lookup (coq_objects st2) ''tacn'' ''simpl'' = Some (''ltac'', ''tacn'', ''coq:tacn.simpl'') \<and>
     resolve_xref (coq_objects st2) ''tacn'' ''simpl'' =
       Inr (Some (RefNode ''ltac'' ''coq:tacn.simpl'' ''simpl''))"
proof -
  let ?d1 = "TacticNotationObject ''tactics''" and ?d2 = "TacticNotationObject ''ltac''"
  have sub: "self_subdomain ?d1 = Some ''tacn''" "self_subdomain ?d2 = Some ''tacn''"
    by (simp_all add: TacticNotationObject_def self_subdomain_def)
  have known: "map_of (coq_objects initial_env) ''tacn'' = Some []"
    by (simp add: initial_env_def initial_data_def)
  have fresh1: "target_id id ?d1 ''simpl'' \<notin> set (document_ids initial_env)"
    by (simp add: initial_env_def)
  have fresh2: "target_id id ?d2 ''simpl'' \<notin> set []" by simp
  have t: "target_id id ?d1 ''simpl'' = ''coq:tacn.simpl''"
    "target_id id ?d2 ''simpl'' = ''coq:tacn.simpl''"
    by (simp_all add: target_id_def make_target_def TacticNotationObject_def self_objtype_def)
  have docs: "self_docname ?d1 = ''tactics''" "self_docname ?d2 = ''ltac''"
    "self_objtype ?d2 = ''tacn''"
    by (simp_all add: TacticNotationObject_def self_objtype_def)
  have empty: "reported initial_env = []" by (simp add: initial_env_def)
  from add_target_duplicate_name [OF sub known fresh1 fresh2]
  obtain st1 st2 where
    "add_target id ?d1 initial_env ''simpl'' = Inr (st1, ''coq:tacn.simpl'')"
    "add_target id ?d2 (st1\<lparr>document_ids := []\<rparr>) ''simpl'' = Inr (st2, ''coq:tacn.simpl'')"
    "reported st2 = reported st1 @ [DuplicateObject ''simpl'' ''tactics'']"
    "reported st1 = []"
    "lookup (coq_objects st2) ''tacn'' ''simpl'' = Some (''ltac'', ''tacn'', ''coq:tacn.simpl'')"
    "resolve_xref (coq_objects st2) ''tacn'' ''simpl'' =
       Inr (Some (RefNode ''ltac'' ''coq:tacn.simpl'' ''simpl''))"
    unfolding t docs empty by auto
  then show ?thesis by auto
qed


subsection \<open>Explicit names\<close>

lemma split_on_no_separator: "\<forall>p \<in> set (split_on sep s). sep \<notin> set p"
  by (induction s) (auto split: list.splits)

lemma split_on_length: "length (split_on sep s) = Suc (length (filter (\<lambda>c. c = sep) s))"
  by (induction s) (auto split: list.splits)

lemma map_of_fold_update:
  "map_of (fold (\<lambda>(k, v) d. AList.update k v d) kvs d) = map_of d ++ map_of (rev kvs)"
proof (induction kvs arbitrary: d)
  case Nil
  show ?case by simp
next
  case (Cons kv kvs)
  obtain k v where kv: "kv = (k, v)" by (cases kv)
  show ?case
    by (rule ext) (simp add: kv Cons.IH update_conv' map_add_def split: option.splits)
qed

lemma map_of_rev_last_occurrence:
  assumes "i < length kvs" and "kvs ! i = (k, v)"
    and "\<forall>j. i < j \<longrightarrow> j < length kvs \<longrightarrow> fst (kvs ! j) \<noteq> k"
  shows "map_of (rev kvs) k = Some v"
proof -
  have split: "kvs = take i kvs @ (k, v) # drop (Suc i) kvs"
    using assms(1,2) by (metis id_take_nth_drop)
  have "k \<notin> fst ` set (drop (Suc i) kvs)"
  proof
    assume "k \<in> fst ` set (drop (Suc i) kvs)"
    then obtain p where p: "p \<in> set (drop (Suc i) kvs)" "fst p = k" by auto
    then obtain n where n: "n < length (drop (Suc i) kvs)" "drop (Suc i) kvs ! n = p"
      by (auto simp add: in_set_conv_nth)
    then have in_range: "Suc i + n < length kvs" and at: "kvs ! (Suc i + n) = p" by auto
    from assms(3) in_range have "fst (kvs ! (Suc i + n)) \<noteq> k" by simp
    with at p(2) show False by simp
  qed
  then have none: "map_of (rev (drop (Suc i) kvs)) k = None"
    by (simp add: map_of_eq_None_iff)
  have "rev kvs = rev (drop (Suc i) kvs) @ (k, v) # rev (take i kvs)"
    by (subst split) simp
  then have "map_of (rev kvs) k = map_of (rev (drop (Suc i) kvs) @ (k, v) # rev (take i kvs)) k"
    by simp
  also have "\<dots> = Some v"
    using none by (simp add: map_add_def)
  finally show ?thesis .
qed

text \<open>
  Claim C9, amended: the \<open>:name:\<close> option is split at its semicolons (one name more than
  there are semicolons, no name holding one); \<open>_prepare_names\<close> fails, with the
  count-mismatch error, exactly when the number of names differs from the number of
  signatures; when the counts match, the i-th signature gets the i-th name, stripped,
  provided its text does not occur again later in the block, as is the case for every
  signature when the signatures are pairwise distinct.
\<close>

theorem prepare_names_by_position:
  "(\<forall>p \<in> set (split_on CHR '';'' ns). CHR '';'' \<notin> set p) \<and>
   length (split_on CHR '';'' ns) = Suc (length (filter (\<lambda>c. c = CHR '';'') ns)) \<and>
   ((\<exists>e. prepare_names sigs (Some ns) = Inl e) \<longleftrightarrow>
      length (split_on CHR '';'' ns) \<noteq> length sigs) \<and>
   (length (split_on CHR '';'' ns) \<noteq> length sigs \<longrightarrow>
      prepare_names sigs (Some ns) =
        Inl (NameCountError (length (split_on CHR '';'' ns)) (length sigs))) \<and>
   (length (split_on CHR '';'' ns) = length sigs \<longrightarrow>
      (\<exists>names. prepare_names sigs (Some ns) = Inr names \<and>
         (\<forall>i < length sigs.
            (\<forall>j. i < j \<longrightarrow> j < length sigs \<longrightarrow> sigs ! j \<noteq> sigs ! i) \<longrightarrow>
            map_of names (sigs ! i) = Some (strip (split_on CHR '';'' ns ! i))))) \<and>
   (distinct sigs \<longrightarrow> (\<forall>i < length sigs. \<forall>j. i < j \<longrightarrow> j < length sigs \<longrightarrow> sigs ! j \<noteq> sigs ! i))"
proof (intro conjI impI)
  show "\<forall>p \<in> set (split_on CHR '';'' ns). CHR '';'' \<notin> set p"
    by (rule split_on_no_separator)
  show "length (split_on CHR '';'' ns) = Suc (length (filter (\<lambda>c. c = CHR '';'') ns))"
    by (rule split_on_length)
  show "(\<exists>e. prepare_names sigs (Some ns) = Inl e) \<longleftrightarrow>
      length (split_on CHR '';'' ns) \<noteq> length sigs"
    by (simp add: prepare_names_def Let_def)
  show "prepare_names sigs (Some ns) =
        Inl (NameCountError (length (split_on CHR '';'' ns)) (length sigs))"
    if "length (split_on CHR '';'' ns) \<noteq> length sigs"
    using that by (simp add: prepare_names_def Let_def)
  show "\<forall>i < length sigs. \<forall>j. i < j \<longrightarrow> j < length sigs \<longrightarrow> sigs ! j \<noteq> sigs ! i"
    if "distinct sigs"
    using that by (auto simp add: nth_eq_iff_index_eq)
next
  assume len: "length (split_on CHR '';'' ns) = length sigs"
  let ?names = "map strip (split_on CHR '';'' ns)"
  let ?kvs = "zip sigs ?names"
  have res: "prepare_names sigs (Some ns) = Inr (dict_of ?kvs)"
    using len by (simp add: prepare_names_def Let_def)
  have "map_of (dict_of ?kvs) (sigs ! i) = Some (strip (split_on CHR '';'' ns ! i))"
    if i: "i < length sigs" and last: "\<forall>j. i < j \<longrightarrow> j < length sigs \<longrightarrow> sigs ! j \<noteq> sigs ! i"
    for i
  proof -
    have "map_of (rev ?kvs) (sigs ! i) = Some (?names ! i)"
    proof (rule map_of_rev_last_occurrence [where i = i])
      show "i < length ?kvs" using i len by simp
      show "?kvs ! i = (sigs ! i, ?names ! i)" using i len by simp
      show "\<forall>j. i < j \<longrightarrow> j < length ?kvs \<longrightarrow> fst (?kvs ! j) \<noteq> sigs ! i"
        using last len by simp
    qed
    then show ?thesis
      using i len by (simp add: dict_of_def map_of_fold_update)
  qed
  with res show "\<exists>names. prepare_names sigs (Some ns) = Inr names \<and>
         (\<forall>i < length sigs.
            (\<forall>j. i < j \<longrightarrow> j < length sigs \<longrightarrow> sigs ! j \<noteq> sigs ! i) \<longrightarrow>
            map_of names (sigs ! i) = Some (strip (split_on CHR '';'' ns ! i)))"
    by blast
qed

text \<open>
  Claim C9, as stated, fails: \<open>self._names\<close> is a dictionary keyed by the text of the
  signature, so of two equal signatures the first does not get the first name.
\<close>

theorem prepare_names_repeated_signature:
  "prepare_names [''Foo'', ''Foo''] (Some ''x;y'') = Inr [(''Foo'', ''y'')] \<and>
   length (split_on CHR '';'' ''x;y'') = length [''Foo'', ''Foo''] \<and>
   strip (split_on CHR '';'' ''x;y'' ! 0) = ''x'' \<and>
   map_of [(''Foo'', ''y'')] ([''Foo'', ''Foo''] ! 0) = Some ''y''"
  by code_simp

subsection \<open>Grammar productions\<close>

lemma strip_word:
  assumes "\<forall>c \<in> set w. \<not> isspace c"
  shows "strip w = w"
proof (cases "w = []")
  case True
  then show ?thesis by (simp add: strip_def)
next
  case False
  then have "hd w \<in> set w" "last w \<in> set w" by simp_all
  with assms have ends: "\<not> isspace (hd w)" "\<not> isspace (last w)" by blast+
  from ends(1) have "dropWhile isspace w = w"
    by (simp add: dropWhile_eq_self_iff)
  moreover from ends(2) False have "dropWhile isspace (rev w) = rev w"
    by (simp add: dropWhile_eq_self_iff hd_rev)
  ultimately show ?thesis by (simp add: strip_def)
qed

lemma split_ws_word:
  assumes "split_ws (Suc n) s = w # rest"
  shows "w \<noteq> [] \<and> (\<forall>c \<in> set w. \<not> isspace c) \<and>
    rest = split_ws n (dropWhile (\<lambda>c. \<not> isspace c) (dropWhile isspace s))"
proof -
  let ?r = "dropWhile isspace s"
  from assms have r: "?r \<noteq> []" by (auto simp add: Let_def split: if_splits)
  have "split_ws (Suc n) s =
      takeWhile (\<lambda>c. \<not> isspace c) ?r # split_ws n (dropWhile (\<lambda>c. \<not> isspace c) ?r)"
    using r by (simp add: Let_def del: dropWhile_eq_Nil_conv)
  with assms have w: "w = takeWhile (\<lambda>c. \<not> isspace c) ?r"
    and rest: "rest = split_ws n (dropWhile (\<lambda>c. \<not> isspace c) ?r)"
    by simp_all
  from r have "\<not> isspace (hd ?r)" by (rule hd_dropWhile)
  with r have "w \<noteq> []" unfolding w by (cases ?r) auto
  moreover have "\<forall>c \<in> set w. \<not> isspace c"
    unfolding w by (auto dest: set_takeWhileD)
  ultimately show ?thesis using rest by simp
qed

lemma split_ws_three:
  assumes "split_ws 2 s = [lhs, op, rhs]"
  shows "strip lhs = lhs \<and> strip op = op \<and> lhs \<noteq> []"
proof -
  have two: "(2::nat) = Suc (Suc 0)" by simp
  from assms have first: "split_ws (Suc (Suc 0)) s = lhs # [op, rhs]" by (simp add: two)
  note a = split_ws_word [OF first]
  then have "split_ws (Suc 0) (dropWhile (\<lambda>c. \<not> isspace c) (dropWhile isspace s)) = op # [rhs]"
    by simp
  note b = split_ws_word [OF this]
  from a b show ?thesis by (simp add: strip_word)
qed

lemma prodn_add_target_fresh:
  assumes "prodn_target_id name \<notin> set (document_ids st)"
  shows "\<exists>st'. prodn_add_target_and_index d st (Some name) = (st', Some (prodn_target_id name)) \<and>
    map_of (std_objects st') name = Some (self_docname d, prodn_target_id name)"
  using assms
  by (simp add: prodn_add_target_and_index_def prodn_add_target_def prodn_record_name_def
      Let_def update_conv')

text \<open>
  Claim C5, amended: a signature that does not split into exactly three parts, or whose
  operator is neither \<open>::=\<close> nor \<open>+=\<close>, fails with the signature error. For a signature
  that splits into (lhs, op, rhs) and whose right-hand side the notation parser accepts:
  with \<open>::=\<close> the name is \<open>('token', lhs)\<close> and, when \<open>"grammar-token-" + lhs\<close> is not yet
  among the ids of the document, registering it enters that key in the standard token
  namespace with the document and the target \<open>"grammar-token-" + lhs\<close>; with \<open>+=\<close> there
  is no name, and registering changes nothing.
\<close>

theorem prodn_registration:
  "(length (split_ws 2 signature) \<noteq> 3 \<longrightarrow>
      prodn_handle_signature notation_to_sphinx signature = Inl SigError) \<and>
   (\<forall>lhs op rhs. split_ws 2 signature = [lhs, op, rhs] \<longrightarrow>
      (op \<noteq> ''::='' \<and> op \<noteq> ''+='' \<longrightarrow>
         prodn_handle_signature notation_to_sphinx signature = Inl SigError) \<and>
      (op = ''::='' \<and> notation_to_sphinx (strip rhs) = Inr () \<longrightarrow>
         prodn_handle_signature notation_to_sphinx signature = Inr (Some (''token'', lhs)) \<and>
         (''grammar-token-'' @ lhs \<notin> set (document_ids st) \<longrightarrow>
            (\<exists>st'. prodn_add_target_and_index d st (Some (''token'', lhs)) =
                     (st', Some (''grammar-token-'' @ lhs)) \<and>
                   map_of (std_objects st') (''token'', lhs) =
                     Some (self_docname d, ''grammar-token-'' @ lhs)))) \<and>
      (op = ''+='' \<and> notation_to_sphinx (strip rhs) = Inr () \<longrightarrow>
         prodn_handle_signature notation_to_sphinx signature = Inr None \<and>
         prodn_add_target_and_index d st None = (st, None)))"
proof (intro conjI allI impI)
  assume "length (split_ws 2 signature) \<noteq> 3"
  then show "prodn_handle_signature notation_to_sphinx signature = Inl SigError"
    by (simp add: prodn_handle_signature_def Let_def)
next
  fix lhs op rhs
  assume parts: "split_ws 2 signature = [lhs, op, rhs]"
  note words = split_ws_three [OF parts]
  {
    assume "op \<noteq> ''::='' \<and> op \<noteq> ''+=''"
    then show "prodn_handle_signature notation_to_sphinx signature = Inl SigError"
      using words by (simp add: prodn_handle_signature_def Let_def parts)
  next
    assume "op = ''::='' \<and> notation_to_sphinx (strip rhs) = Inr ()"
    then show "prodn_handle_signature notation_to_sphinx signature = Inr (Some (''token'', lhs))"
      using words by (simp add: prodn_handle_signature_def Let_def parts)
  next
    assume "''grammar-token-'' @ lhs \<notin> set (document_ids st)"
    then have "prodn_target_id (''token'', lhs) \<notin> set (document_ids st)"
      by (simp add: prodn_target_id_def)
    from prodn_add_target_fresh [OF this, of d]
    show "\<exists>st'. prodn_add_target_and_index d st (Some (''token'', lhs)) =
                     (st', Some (''grammar-token-'' @ lhs)) \<and>
                   map_of (std_objects st') (''token'', lhs) =
                     Some (self_docname d, ''grammar-token-'' @ lhs)"
      by (simp add: prodn_target_id_def)
  next
    assume "op = ''+='' \<and> notation_to_sphinx (strip rhs) = Inr ()"
    then show "prodn_handle_signature notation_to_sphinx signature = Inr None"
      using words by (simp add: prodn_handle_signature_def Let_def parts)
  next
    show "prodn_add_target_and_index d st None = (st, None)"
      by (simp add: prodn_add_target_and_index_def)
  }
qed

text \<open>
  Claim C5, as stated, fails: when the document already has the id
  \<open>grammar-token-term\<close>, a production \<open>term ::= ...\<close> enters no key.
\<close>

theorem prodn_existing_id:
  "prodn_handle_signature (\<lambda>_. Inr ()) ''term ::= @ident'' = Inr (Some (''token'', ''term'')) \<and>
   prodn_add_target_and_index (ProductionObject ''grammar'')
     (initial_env\<lparr>document_ids := [''grammar-token-term'']\<rparr>) (Some (''token'', ''term'')) =
     (initial_env\<lparr>document_ids := [''grammar-token-term'']\<rparr>, Some ''grammar-token-term'') \<and>
   map_of (std_objects (initial_env\<lparr>document_ids := [''grammar-token-term'']\<rparr>))
     (''token'', ''term'') = None"
  by code_simp

theorem prodn_registration_witness:
  "prodn_handle_signature (\<lambda>_. Inr ()) ''term ::= let: @pattern := @term in @term'' =
     Inr (Some (''token'', ''term'')) \<and>
   (\<exists>st'. prodn_add_target_and_index (ProductionObject ''grammar'') initial_env
            (Some (''token'', ''term'')) = (st', Some ''grammar-token-term'') \<and>
          map_of (std_objects st') (''token'', ''term'') =
            Some (''grammar'', ''grammar-token-term'')) \<and>
   prodn_handle_signature (\<lambda>_. Inr ()) ''term += @ident'' = Inr None \<and>
   prodn_add_target_and_index (ProductionObject ''grammar'') initial_env None =
     (initial_env, None) \<and>
   prodn_handle_signature (\<lambda>_. Inr ()) ''term = @ident'' = Inl SigError \<and>
   prodn_handle_signature (\<lambda>_. Inr ()) ''term ::='' = Inl SigError"
proof -
  let ?p = "\<lambda>_ :: string. Inr () :: error + unit"
  let ?d = "ProductionObject ''grammar''"
  note T = prodn_registration [where notation_to_sphinx = ?p and st = initial_env and d = ?d]
  have s1: "split_ws 2 ''term ::= let: @pattern := @term in @term'' =
      [''term'', ''::='', ''let: @pattern := @term in @term'']" by code_simp
  have s2: "split_ws 2 ''term += @ident'' = [''term'', ''+='', ''@ident'']" by code_simp
  have s3: "split_ws 2 ''term = @ident'' = [''term'', ''='', ''@ident'']" by code_simp
  have s4: "length (split_ws 2 ''term ::='') \<noteq> 3" by code_simp
  have fresh: "''grammar-token-'' @ ''term'' \<notin> set (document_ids initial_env)"
    by (simp add: initial_env_def)
  have doc: "self_docname ?d = ''grammar''" by (simp add: ProductionObject_def)
  from T [of "''term ::= let: @pattern := @term in @term''"] s1 fresh
  have a: "prodn_handle_signature ?p ''term ::= let: @pattern := @term in @term'' =
       Inr (Some (''token'', ''term'')) \<and>
     (\<exists>st'. prodn_add_target_and_index ?d initial_env (Some (''token'', ''term'')) =
              (st', Some ''grammar-token-term'') \<and>
            map_of (std_objects st') (''token'', ''term'') =
              Some (''grammar'', ''grammar-token-term''))"
    unfolding doc by simp
  from T [of "''term += @ident''"] s2
  have b: "prodn_handle_signature ?p ''term += @ident'' = Inr None \<and>
     prodn_add_target_and_index ?d initial_env None = (initial_env, None)"
    by simp
  from T [of "''term = @ident''"] s3
  have c: "prodn_handle_signature ?p ''term = @ident'' = Inl SigError"
    by simp
  from T [of "''term ::=''"] s4
  have d: "prodn_handle_signature ?p ''term ::='' = Inl SigError"
    by blast
  from a b c d show ?thesis by blast
qed

theorem prepare_names_by_position_witness:
  "(\<exists>names. prepare_names [''Foo @x'', ''Bar''] (Some ''Foo; Bar'') = Inr names \<and>
      map_of names ''Foo @x'' = Some ''Foo'' \<and> map_of names ''Bar'' = Some ''Bar'') \<and>
   prepare_names [''Foo @x''] (Some ''Foo; Bar'') = Inl (NameCountError 2 1)"
proof -
  let ?sigs = "[''Foo @x'', ''Bar'']"
  note T = prepare_names_by_position [where sigs = ?sigs and ns = "''Foo; Bar''"]
  note U = prepare_names_by_position [where sigs = "[''Foo @x'']" and ns = "''Foo; Bar''"]
  have len: "length (split_on CHR '';'' ''Foo; Bar'') = length ?sigs" by code_simp
  have n0: "strip (split_on CHR '';'' ''Foo; Bar'' ! 0) = ''Foo''" by code_simp
  have n1: "strip (split_on CHR '';'' ''Foo; Bar'' ! 1) = ''Bar''" by code_simp
  from T len obtain names where names: "prepare_names ?sigs (Some ''Foo; Bar'') = Inr names"
    and at: "\<forall>i < length ?sigs.
            (\<forall>j. i < j \<longrightarrow> j < length ?sigs \<longrightarrow> ?sigs ! j \<noteq> ?sigs ! i) \<longrightarrow>
            map_of names (?sigs ! i) = Some (strip (split_on CHR '';'' ''Foo; Bar'' ! i))"
    by blast
  have later0: "\<forall>j. 0 < j \<longrightarrow> j < length ?sigs \<longrightarrow> ?sigs ! j \<noteq> ?sigs ! 0"
    by (auto simp add: less_Suc_eq)
  have later1: "\<forall>j. 1 < j \<longrightarrow> j < length ?sigs \<longrightarrow> ?sigs ! j \<noteq> ?sigs ! 1"
    by (auto simp add: less_Suc_eq)
  from at [rule_format, of 0] later0 n0 have a: "map_of names ''Foo @x'' = Some ''Foo''"
    by simp
  from at [rule_format, of 1] later1 n1 have b: "map_of names ''Bar'' = Some ''Bar''"
    by simp
  have mismatch: "length (split_on CHR '';'' ''Foo; Bar'') \<noteq> length [''Foo @x'']" by code_simp
  have two: "length (split_on CHR '';'' ''Foo; Bar'') = 2" by code_simp
  from U mismatch have c: "prepare_names [''Foo @x''] (Some ''Foo; Bar'') = Inl (NameCountError 2 1)"
    unfolding two by simp
  from names a b c show ?thesis by blast
qed

subsection \<open>Merging a batch\<close>

lemma update_all_simps [simp]:
  "update_all [] d = d"
  "update_all ((k, v) # kvs) d = update_all kvs (AList.update k v d)"
  by (simp_all add: update_all_def)

lemma map_of_update_all: "map_of (update_all kvs d) = map_of d ++ map_of (rev kvs)"
  by (simp add: update_all_def map_of_fold_update)

lemma map_of_rev_distinct:
  assumes "distinct (map fst kvs)"
  shows "map_of (rev kvs) = map_of kvs"
proof
  fix k
  show "map_of (rev kvs) k = map_of kvs k"
  proof (cases "map_of kvs k")
    case None
    then have "k \<notin> fst ` set (rev kvs)" by (simp add: map_of_eq_None_iff)
    then have "map_of (rev kvs) k = None" by (simp add: map_of_eq_None_iff)
    with None show ?thesis by simp
  next
    case (Some v)
    then have "(k, v) \<in> set (rev kvs)" by (auto dest: map_of_SomeD)
    moreover have "distinct (map fst (rev kvs))"
      using assms by (simp add: rev_map [symmetric])
    ultimately have "map_of (rev kvs) k = Some v" by (rule map_of_is_SomeI [rotated])
    with Some show ?thesis by simp
  qed
qed

lemma map_of_filter_distinct:
  assumes "distinct (map fst xs)"
  shows "map_of (filter P xs) k =
    (case map_of xs k of None \<Rightarrow> None | Some v \<Rightarrow> if P (k, v) then Some v else None)"
  using assms
proof (induction xs)
  case Nil
  show ?case by simp
next
  case (Cons x xs)
  obtain a b where x: "x = (a, b)" by (cases x)
  from Cons.prems have notin: "a \<notin> fst ` set xs" and dist: "distinct (map fst xs)"
    by (simp_all add: x)
  from notin have none: "map_of xs a = None" by (simp add: map_of_eq_None_iff)
  show ?case
    using Cons.IH [OF dist] none by (auto simp add: x split: option.splits)
qed

lemma update_all_fixed:
  assumes "\<forall>p \<in> set kvs. map_of d (fst p) = Some (snd p)"
  shows "update_all kvs d = d"
  using assms
proof (induction kvs)
  case Nil
  show ?case by simp
next
  case (Cons kv kvs)
  obtain k v where kv: "kv = (k, v)" by (cases kv)
  from Cons.prems have "map_of d k = Some v" by (simp add: kv)
  then have "AList.update k v d = d" by (rule update_triv)
  with Cons show ?case by (simp add: kv)
qed

lemma update_all_idem:
  assumes "distinct (map fst kvs)"
  shows "update_all kvs (update_all kvs d) = update_all kvs d"
proof (rule update_all_fixed, rule ballI)
  fix p assume p: "p \<in> set kvs"
  then have "(fst p, snd p) \<in> set kvs" by simp
  with assms have "map_of kvs (fst p) = Some (snd p)" by (rule map_of_is_SomeI)
  then show "map_of (update_all kvs d) (fst p) = Some (snd p)"
    by (simp add: map_of_update_all map_of_rev_distinct [OF assms])
qed

lemma duplicate_declarations_cong:
  assumes "\<forall>n \<in> fst ` set items. map_of a n = map_of b n"
  shows "duplicate_declarations D a items = duplicate_declarations D b items"
proof -
  have "map (\<lambda>(name, (docname, _, _)).
                    if docname \<in> set D then
                      (case map_of a name of
                         None \<Rightarrow> []
                       | Some (other, _, _) \<Rightarrow> [DuplicateDeclaration docname name other])
                    else []) items =
        map (\<lambda>(name, (docname, _, _)).
                    if docname \<in> set D then
                      (case map_of b name of
                         None \<Rightarrow> []
                       | Some (other, _, _) \<Rightarrow> [DuplicateDeclaration docname name other])
                    else []) items"
    using assms by (intro map_cong refl) (auto simp add: image_iff)
  then show ?thesis by (simp only: duplicate_declarations_def)
qed

lemma merge_objects_closed:
  assumes "distinct (map fst items)"
  shows "merge_objects D items ours ws =
    (update_all (filter (in_docnames D) items) ours, ws @ duplicate_declarations D ours items)"
  using assms
proof (induction D items ours ws rule: merge_objects.induct)
  case (1 D ours ws)
  show ?case by (simp add: duplicate_declarations_def)
next
  case (2 D name docname objtype targetid rest ours ws)
  from "2.prems" have notin: "name \<notin> fst ` set rest" and dist: "distinct (map fst rest)"
    by simp_all
  have head: "duplicate_declarations D ours ((name, docname, objtype, targetid) # rest) =
      (if docname \<in> set D then
         (case map_of ours name of
            None \<Rightarrow> []
          | Some (other, _, _) \<Rightarrow> [DuplicateDeclaration docname name other])
       else []) @ duplicate_declarations D ours rest"
    by (simp add: duplicate_declarations_def)
  show ?case
  proof (cases "docname \<in> set D")
    case True
    have "duplicate_declarations D (AList.update name (docname, objtype, targetid) ours) rest =
        duplicate_declarations D ours rest"
      using notin by (intro duplicate_declarations_cong) (auto simp add: update_conv')
    with True "2.IH"(1) [OF True dist] show ?thesis
      by (simp add: head in_docnames_def)
  next
    case False
    with "2.IH"(2) [OF False dist] show ?thesis
      by (simp add: head in_docnames_def)
  qed
qed

lemma merged_lookup:
  assumes "distinct (map fst items)"
  shows "map_of (update_all (filter (in_docnames D) items) ours) name =
    (case map_of items name of
       Some (doc, ty, t) \<Rightarrow> if doc \<in> set D then Some (doc, ty, t) else map_of ours name
     | None \<Rightarrow> map_of ours name)"
proof -
  have "distinct (map fst (filter (in_docnames D) items))"
    using assms by (rule distinct_map_filter)
  then show ?thesis
    by (auto simp add: map_of_update_all map_of_rev_distinct map_of_filter_distinct [OF assms]
        map_add_def in_docnames_def split: option.splits)
qed


lemma map_of_key:
  assumes "k \<in> fst ` set xs"
  shows "\<exists>v. map_of xs k = Some v"
proof (cases "map_of xs k")
  case None
  then have "k \<notin> fst ` set xs" by (simp add: map_of_eq_None_iff)
  with assms show ?thesis by simp
next
  case (Some v)
  then show ?thesis by simp
qed

lemma merge_warnings_Cons:
  "merge_warnings ours D ((s, their) # rest) =
     (case map_of ours s of None \<Rightarrow> [] | Some our_objects \<Rightarrow> duplicate_declarations D our_objects their)
     @ merge_warnings ours D rest"
  by (simp add: merge_warnings_def)

lemma merge_warnings_cong:
  assumes "\<forall>s \<in> fst ` set batch. map_of a s = map_of b s"
  shows "merge_warnings a D batch = merge_warnings b D batch"
proof -
  have "map (\<lambda>(subdomain, their_objects).
                    case map_of a subdomain of
                      None \<Rightarrow> []
                    | Some our_objects \<Rightarrow> duplicate_declarations D our_objects their_objects) batch =
        map (\<lambda>(subdomain, their_objects).
                    case map_of b subdomain of
                      None \<Rightarrow> []
                    | Some our_objects \<Rightarrow> duplicate_declarations D our_objects their_objects) batch"
    using assms by (intro map_cong refl) (auto simp add: image_iff)
  then show ?thesis by (simp only: merge_warnings_def)
qed

lemma merge_subdomains_closed:
  assumes "distinct (map fst batch)"
    and "\<forall>p \<in> set batch. distinct (map fst (snd p))"
    and "fst ` set batch \<subseteq> fst ` set ours"
  shows "\<exists>r. merge_subdomains D batch ours ws = Inr (r, ws @ merge_warnings ours D batch) \<and>
    map fst r = map fst ours \<and>
    (\<forall>s. map_of r s =
       (case map_of batch s of
          None \<Rightarrow> map_of ours s
        | Some their \<Rightarrow> map_option (update_all (filter (in_docnames D) their)) (map_of ours s)))"
  using assms
proof (induction batch arbitrary: ours ws)
  case Nil
  show ?case by (simp add: merge_warnings_def)
next
  case (Cons p batch)
  obtain s0 their0 where p: "p = (s0, their0)" by (cases p)
  from Cons.prems have notin: "s0 \<notin> fst ` set batch" and dist: "distinct (map fst batch)"
    and inner0: "distinct (map fst their0)"
    and inner: "\<forall>p \<in> set batch. distinct (map fst (snd p))"
    and s0: "s0 \<in> fst ` set ours" and sub: "fst ` set batch \<subseteq> fst ` set ours"
    by (simp_all add: p)
  from map_of_key [OF s0] obtain o0 where o0: "map_of ours s0 = Some o0" ..
  let ?o1 = "update_all (filter (in_docnames D) their0) o0"
  let ?ours1 = "AList.update s0 ?o1 ours"
  let ?ws1 = "ws @ duplicate_declarations D o0 their0"
  have keys1: "map fst ?ours1 = map fst ours"
    using s0 by (simp add: update_keys)
  then have "fst ` set ?ours1 = fst ` set ours"
    by (metis list.set_map)
  with sub have sub1: "fst ` set batch \<subseteq> fst ` set ?ours1" by simp
  from Cons.IH [OF dist inner sub1, of ?ws1] obtain r where
    r: "merge_subdomains D batch ?ours1 ?ws1 = Inr (r, ?ws1 @ merge_warnings ?ours1 D batch)"
    and keys: "map fst r = map fst ?ours1"
    and maps: "\<forall>s. map_of r s =
       (case map_of batch s of
          None \<Rightarrow> map_of ?ours1 s
        | Some their \<Rightarrow> map_option (update_all (filter (in_docnames D) their)) (map_of ?ours1 s))"
    by blast
  have same_warnings: "merge_warnings ?ours1 D batch = merge_warnings ours D batch"
    using notin by (intro merge_warnings_cong) (auto simp add: update_conv')
  have step: "merge_subdomains D (p # batch) ours ws = merge_subdomains D batch ?ours1 ?ws1"
    by (simp add: p o0 merge_objects_closed [OF inner0])
  have "merge_subdomains D (p # batch) ours ws = Inr (r, ws @ merge_warnings ours D (p # batch))"
    by (simp only: step r same_warnings) (simp add: p merge_warnings_Cons o0)
  moreover have "map fst r = map fst ours"
    using keys keys1 by simp
  moreover have "map_of r s =
       (case map_of (p # batch) s of
          None \<Rightarrow> map_of ours s
        | Some their \<Rightarrow> map_option (update_all (filter (in_docnames D) their)) (map_of ours s))"
    for s
  proof (cases "s = s0")
    case True
    from notin have "map_of batch s0 = None" by (simp add: map_of_eq_None_iff)
    with maps [rule_format, of s] True show ?thesis
      by (simp add: p o0 update_conv' split: option.splits)
  next
    case False
    with maps [rule_format, of s] show ?thesis
      by (simp add: p update_conv' split: option.splits)
  qed
  ultimately show ?case by blast
qed

lemma merge_subdomains_fixed:
  assumes "\<forall>p \<in> set batch. distinct (map fst (snd p)) \<and>
      (\<exists>names. map_of r (fst p) = Some names \<and>
         update_all (filter (in_docnames D) (snd p)) names = names)"
  shows "\<exists>w. merge_subdomains D batch r ws = Inr (r, w)"
  using assms
proof (induction batch arbitrary: ws)
  case Nil
  show ?case by simp
next
  case (Cons p batch)
  obtain s0 their0 where p: "p = (s0, their0)" by (cases p)
  from Cons.prems obtain names where inner0: "distinct (map fst their0)"
    and at_s0: "map_of r s0 = Some names"
    and stays: "update_all (filter (in_docnames D) their0) names = names"
    by (auto simp add: p)
  from at_s0 have written: "AList.update s0 names r = r" by (rule update_triv)
  have "merge_subdomains D (p # batch) r ws =
      merge_subdomains D batch r (ws @ duplicate_declarations D names their0)"
    by (simp add: p at_s0 merge_objects_closed [OF inner0] stays written)
  moreover from Cons.prems have "\<forall>p \<in> set batch. distinct (map fst (snd p)) \<and>
      (\<exists>names. map_of r (fst p) = Some names \<and>
         update_all (filter (in_docnames D) (snd p)) names = names)"
    by simp
  from Cons.IH [OF this]
  obtain w where "merge_subdomains D batch r (ws @ duplicate_declarations D names their0) = Inr (r, w)"
    by blast
  ultimately show ?case by simp
qed

text \<open>
  Claim C3: for a batch whose subdomains are subdomains of the registry (dictionaries have
  distinct keys), \<open>merge_domaindata\<close> succeeds and keeps the subdomains; afterwards a name
  has the batch's entry when the batch has one whose document is in the restriction, and
  the registry's former entry, if any, otherwise; one warning is issued, in order, for each
  inserted entry whose name the registry already had, citing the registry's document; and
  merging the same batch again, with the same restriction, returns the same registry (it
  only warns again).
\<close>

theorem merge_domaindata_restricted:
  assumes keys: "distinct (map fst otherdata)"
    and inner: "\<forall>(subdomain, their_objects) \<in> set otherdata. distinct (map fst their_objects)"
    and sub: "fst ` set otherdata \<subseteq> fst ` set ours"
  shows "\<exists>r. merge_domaindata ours docnames otherdata =
           Inr (r, merge_warnings ours docnames otherdata) \<and>
         map fst r = map fst ours \<and>
         (\<forall>s name. lookup r s name =
            (case lookup otherdata s name of
               Some (docname, objtype, targetid) \<Rightarrow>
                 if docname \<in> set docnames then Some (docname, objtype, targetid)
                 else lookup ours s name
             | None \<Rightarrow> lookup ours s name)) \<and>
         merge_domaindata r docnames otherdata = Inr (r, merge_warnings r docnames otherdata)"
proof -
  from inner have inner': "\<forall>p \<in> set otherdata. distinct (map fst (snd p))"
    by (auto simp add: case_prod_beta)
  from merge_subdomains_closed [OF keys inner' sub, of docnames "[]"] obtain r where
    r: "merge_subdomains docnames otherdata ours [] = Inr (r, merge_warnings ours docnames otherdata)"
    and same_keys: "map fst r = map fst ours"
    and maps: "\<And>s. map_of r s =
       (case map_of otherdata s of
          None \<Rightarrow> map_of ours s
        | Some their \<Rightarrow> map_option (update_all (filter (in_docnames docnames) their)) (map_of ours s))"
    by auto
  have looks: "lookup r s name =
            (case lookup otherdata s name of
               Some (docname, objtype, targetid) \<Rightarrow>
                 if docname \<in> set docnames then Some (docname, objtype, targetid)
                 else lookup ours s name
             | None \<Rightarrow> lookup ours s name)" for s name
  proof (cases "map_of otherdata s")
    case None
    with maps [of s] show ?thesis by (simp add: lookup_def)
  next
    case (Some their)
    then have "(s, their) \<in> set otherdata" by (rule map_of_SomeD)
    with inner' have dist: "distinct (map fst their)" by auto
    from \<open>(s, their) \<in> set otherdata\<close> sub have "s \<in> fst ` set ours" by force
    from map_of_key [OF this] obtain names where names: "map_of ours s = Some names" ..
    show ?thesis
      using maps [of s]
      by (auto simp add: lookup_def Some names merged_lookup [OF dist] split: option.splits)
  qed
  have "\<forall>p \<in> set otherdata. distinct (map fst (snd p)) \<and>
      (\<exists>names. map_of r (fst p) = Some names \<and>
         update_all (filter (in_docnames docnames) (snd p)) names = names)"
  proof
    fix p assume p: "p \<in> set otherdata"
    with inner' have dist: "distinct (map fst (snd p))" by simp
    from p have "(fst p, snd p) \<in> set otherdata" by simp
    with keys have their: "map_of otherdata (fst p) = Some (snd p)" by (rule map_of_is_SomeI)
    from p sub have "fst p \<in> fst ` set ours" by auto
    from map_of_key [OF this] obtain names where names: "map_of ours (fst p) = Some names" ..
    let ?m = "update_all (filter (in_docnames docnames) (snd p)) names"
    from maps [of "fst p"] have "map_of r (fst p) = Some ?m"
      by (simp add: their names)
    moreover have "update_all (filter (in_docnames docnames) (snd p)) ?m = ?m"
      using dist by (intro update_all_idem distinct_map_filter)
    ultimately show "distinct (map fst (snd p)) \<and>
      (\<exists>names. map_of r (fst p) = Some names \<and>
         update_all (filter (in_docnames docnames) (snd p)) names = names)"
      using dist by blast
  qed
  from merge_subdomains_fixed [OF this, of "[]"]
  obtain w where again: "merge_subdomains docnames otherdata r [] = Inr (r, w)" by blast
  from same_keys have "fst ` set r = fst ` set ours" by (metis list.set_map)
  with sub have sub': "fst ` set otherdata \<subseteq> fst ` set r" by simp
  from merge_subdomains_closed [OF keys inner' sub', of docnames "[]"] again
  have again': "merge_subdomains docnames otherdata r [] =
      Inr (r, merge_warnings r docnames otherdata)"
    by auto
  from r same_keys looks again' show ?thesis
    unfolding merge_domaindata_def by blast
qed



theorem merge_domaindata_restricted_witness:
  "\<exists>r. merge_domaindata
          (AList.update ''tacn'' [(''simpl'', ''old'', ''tacn'', ''coq:tacn.simpl'')] initial_data)
          [''ltac'']
          [(''cmd'', [(''Print'', ''vernac'', ''cmd'', ''coq:cmd.print'')]),
           (''tacn'', [(''simpl'', ''ltac'', ''tacn'', ''coq:tacn.simpl''),
                       (''auto'', ''tactics'', ''tacn'', ''coq:tacn.auto'')])] =
          Inr (r, [DuplicateDeclaration ''ltac'' ''simpl'' ''old'']) \<and>
        lookup r ''tacn'' ''simpl'' = Some (''ltac'', ''tacn'', ''coq:tacn.simpl'') \<and>
        lookup r ''tacn'' ''auto'' = None \<and>
        lookup r ''cmd'' ''Print'' = None \<and>
        merge_domaindata r [''ltac'']
          [(''cmd'', [(''Print'', ''vernac'', ''cmd'', ''coq:cmd.print'')]),
           (''tacn'', [(''simpl'', ''ltac'', ''tacn'', ''coq:tacn.simpl''),
                       (''auto'', ''tactics'', ''tacn'', ''coq:tacn.auto'')])] =
          Inr (r, [DuplicateDeclaration ''ltac'' ''simpl'' ''ltac''])"
proof -
  let ?ours = "AList.update ''tacn'' [(''simpl'', ''old'', ''tacn'', ''coq:tacn.simpl'')] initial_data"
  let ?batch = "[(''cmd'', [(''Print'', ''vernac'', ''cmd'', ''coq:cmd.print'')]),
           (''tacn'', [(''simpl'', ''ltac'', ''tacn'', ''coq:tacn.simpl''),
                       (''auto'', ''tactics'', ''tacn'', ''coq:tacn.auto'')])]"
  have keys: "distinct (map fst ?batch)" by simp
  have inner: "\<forall>(subdomain, their_objects) \<in> set ?batch. distinct (map fst their_objects)"
    by simp
  have sub: "fst ` set ?batch \<subseteq> fst ` set ?ours"
    by (simp add: initial_data_def)
  have w1: "merge_warnings ?ours [''ltac''] ?batch = [DuplicateDeclaration ''ltac'' ''simpl'' ''old'']"
    by code_simp
  have b1: "lookup ?batch ''tacn'' ''simpl'' = Some (''ltac'', ''tacn'', ''coq:tacn.simpl'')"
    and b2: "lookup ?batch ''tacn'' ''auto'' = Some (''tactics'', ''tacn'', ''coq:tacn.auto'')"
    and b3: "lookup ?batch ''cmd'' ''Print'' = Some (''vernac'', ''cmd'', ''coq:cmd.print'')"
    and o2: "lookup ?ours ''tacn'' ''auto'' = None"
    and o3: "lookup ?ours ''cmd'' ''Print'' = None"
    by code_simp+
  from merge_domaindata_restricted [OF keys inner sub, of "[''ltac'']"] obtain r where
    r: "merge_domaindata ?ours [''ltac''] ?batch = Inr (r, merge_warnings ?ours [''ltac''] ?batch)"
    and looks: "\<And>s name. lookup r s name =
            (case lookup ?batch s name of
               Some (docname, objtype, targetid) \<Rightarrow>
                 if docname \<in> set [''ltac''] then Some (docname, objtype, targetid)
                 else lookup ?ours s name
             | None \<Rightarrow> lookup ?ours s name)"
    and again: "merge_domaindata r [''ltac''] ?batch = Inr (r, merge_warnings r [''ltac''] ?batch)"
    by blast
  have r_eq: "r = [(''cmd'', []), (''tacn'', [(''simpl'', ''ltac'', ''tacn'', ''coq:tacn.simpl'')]),
      (''opt'', []), (''flag'', []), (''table'', []), (''thm'', []), (''prodn'', []),
      (''exn'', []), (''warn'', [])]"
  proof -
    have "merge_domaindata ?ours [''ltac''] ?batch =
      Inr ([(''cmd'', []), (''tacn'', [(''simpl'', ''ltac'', ''tacn'', ''coq:tacn.simpl'')]),
      (''opt'', []), (''flag'', []), (''table'', []), (''thm'', []), (''prodn'', []),
      (''exn'', []), (''warn'', [])], [DuplicateDeclaration ''ltac'' ''simpl'' ''old''])"
      by code_simp
    with r show ?thesis by simp
  qed
  have w2: "merge_warnings r [''ltac''] ?batch = [DuplicateDeclaration ''ltac'' ''simpl'' ''ltac'']"
    unfolding r_eq by code_simp
  have l1: "lookup r ''tacn'' ''simpl'' = Some (''ltac'', ''tacn'', ''coq:tacn.simpl'')"
    by (simp add: looks b1)
  have l2: "lookup r ''tacn'' ''auto'' = None"
    by (simp add: looks b2 o2)
  have l3: "lookup r ''cmd'' ''Print'' = None"
    by (simp add: looks b3 o3)
  from r again l1 l2 l3 show ?thesis
    unfolding w1 w2 by blast
qed

subsection \<open>Clearing a document\<close>

lemma clear_objects_filter:
  "clear_objects d items names =
     filter (\<lambda>p. fst p \<notin> fst ` {x \<in> set items. fst (snd x) = d}) names"
proof (induction d items names rule: clear_objects.induct)
  case (1 d names)
  show ?case by simp
next
  case (2 d name docname uu uv rest names)
  have keys: "fst ` {x \<in> set ((name, docname, uu, uv) # rest). fst (snd x) = d} =
      (if docname = d then insert name (fst ` {x \<in> set rest. fst (snd x) = d})
       else fst ` {x \<in> set rest. fst (snd x) = d})"
    by (auto simp add: image_iff) force
  show ?case
    unfolding keys
    by (auto simp add: "2.IH" AList.delete_eq case_prod_beta intro: filter_cong)
qed

lemma same_key_same_item:
  assumes "distinct (map fst xs)" and "x \<in> set xs" and "y \<in> set xs" and "fst x = fst y"
  shows "x = y"
  using assms by (auto simp add: distinct_map dest: inj_onD)

lemma clear_objects_self:
  assumes "distinct (map fst names)"
  shows "clear_objects d names names = filter (\<lambda>(name, (docname, _, _)). docname \<noteq> d) names"
proof -
  have "fst p \<notin> fst ` {x \<in> set names. fst (snd x) = d} \<longleftrightarrow> fst (snd p) \<noteq> d"
    if "p \<in> set names" for p
  proof
    assume "fst p \<notin> fst ` {x \<in> set names. fst (snd x) = d}"
    with that show "fst (snd p) \<noteq> d" by auto
  next
    assume other: "fst (snd p) \<noteq> d"
    show "fst p \<notin> fst ` {x \<in> set names. fst (snd x) = d}"
    proof
      assume "fst p \<in> fst ` {x \<in> set names. fst (snd x) = d}"
      then obtain x where x: "x \<in> set names" "fst (snd x) = d" "fst p = fst x" by auto
      from assms that x(1) x(3) have "p = x" by (rule same_key_same_item)
      with x(2) other show False by simp
    qed
  qed
  then have "filter (\<lambda>p. fst p \<notin> fst ` {x \<in> set names. fst (snd x) = d}) names =
      filter (\<lambda>(name, (docname, _, _)). docname \<noteq> d) names"
    by (intro filter_cong refl) (simp add: case_prod_beta)
  then show ?thesis
    by (simp only: clear_objects_filter)
qed

text \<open>
  Claim C4: \<open>clear_doc\<close> keeps, in every subdomain and in their order, exactly the entries
  whose document is not the cleared one; so a name whose entry came from the cleared
  document has no entry afterwards, other names keep theirs, and a reference to a name
  that the cleared document owned resolves to nothing.
\<close>

theorem clear_doc_removes_origin:
  assumes wf: "\<forall>(subdomain, names) \<in> set objs. distinct (map fst names)"
  shows "clear_doc objs d =
      map (\<lambda>(subdomain, names).
             (subdomain, filter (\<lambda>(name, (docname, _, _)). docname \<noteq> d) names)) objs \<and>
    (\<forall>s name docname objtype targetid.
       lookup objs s name = Some (docname, objtype, targetid) \<longrightarrow>
       lookup (clear_doc objs d) s name =
         (if docname = d then None else Some (docname, objtype, targetid))) \<and>
    (\<forall>s name. lookup objs s name = None \<longrightarrow> lookup (clear_doc objs d) s name = None) \<and>
    (\<forall>s name objtype targetid.
       s \<noteq> ''index'' \<longrightarrow> lookup objs s name = Some (d, objtype, targetid) \<longrightarrow>
       resolve_xref (clear_doc objs d) s name = Inr None)"
proof -
  let ?keep = "filter (\<lambda>(name, (docname, _, _)). docname \<noteq> d)"
  have shape: "clear_doc objs d = map (\<lambda>(subdomain, names). (subdomain, ?keep names)) objs"
    unfolding clear_doc_def using wf
    by (intro map_cong refl) (auto simp add: clear_objects_self)
  have sub: "map_of (clear_doc objs d) s = map_option ?keep (map_of objs s)" for s
    by (simp add: shape map_of_map)
  have kept: "map_of (?keep names) name =
      (case map_of names name of
         None \<Rightarrow> None
       | Some (docname, objtype, targetid) \<Rightarrow>
           if docname = d then None else Some (docname, objtype, targetid))"
    if "map_of objs s = Some names" for s names name
  proof -
    from that have "(s, names) \<in> set objs" by (rule map_of_SomeD)
    with wf have "distinct (map fst names)" by auto
    then show ?thesis
      by (simp add: map_of_filter_distinct split: option.splits)
  qed
  have look: "lookup (clear_doc objs d) s name =
      (case lookup objs s name of
         None \<Rightarrow> None
       | Some (docname, objtype, targetid) \<Rightarrow>
           if docname = d then None else Some (docname, objtype, targetid))" for s name
    by (cases "map_of objs s") (simp_all add: lookup_def sub kept)
  have res: "resolve_xref (clear_doc objs d) s name = Inr None"
    if "s \<noteq> ''index''" and "lookup objs s name = Some (d, objtype, targetid)"
    for s name objtype targetid
  proof -
    from that(2) obtain names where names: "map_of objs s = Some names"
      and "map_of names name = Some (d, objtype, targetid)"
      by (auto simp add: lookup_def split: option.splits)
    then have "map_of (?keep names) name = None"
      by (simp add: kept [OF names])
    with that(1) names show ?thesis
      by (simp add: resolve_xref_def sub)
  qed
  from shape look res show ?thesis by simp
qed

theorem clear_doc_removes_origin_witness:
  "clear_doc
     [(''cmd'', [(''Print'', ''vernac'', ''cmd'', ''coq:cmd.print'')]),
      (''tacn'', [(''simpl'', ''tactics'', ''tacn'', ''coq:tacn.simpl''),
                  (''auto'', ''ltac'', ''tacn'', ''coq:tacn.auto''),
                  (''intros'', ''tactics'', ''tacn'', ''coq:tacn.intros'')])] ''tactics'' =
     [(''cmd'', [(''Print'', ''vernac'', ''cmd'', ''coq:cmd.print'')]),
      (''tacn'', [(''auto'', ''ltac'', ''tacn'', ''coq:tacn.auto'')])] \<and>
   resolve_xref
     (clear_doc
        [(''cmd'', [(''Print'', ''vernac'', ''cmd'', ''coq:cmd.print'')]),
         (''tacn'', [(''simpl'', ''tactics'', ''tacn'', ''coq:tacn.simpl''),
                     (''auto'', ''ltac'', ''tacn'', ''coq:tacn.auto''),
                     (''intros'', ''tactics'', ''tacn'', ''coq:tacn.intros'')])] ''tactics'')
     ''tacn'' ''simpl'' = Inr None"
proof -
  let ?objs = "[(''cmd'', [(''Print'', ''vernac'', ''cmd'', ''coq:cmd.print'')]),
      (''tacn'', [(''simpl'', ''tactics'', ''tacn'', ''coq:tacn.simpl''),
                  (''auto'', ''ltac'', ''tacn'', ''coq:tacn.auto''),
                  (''intros'', ''tactics'', ''tacn'', ''coq:tacn.intros'')])]"
  have wf: "\<forall>(subdomain, names) \<in> set ?objs. distinct (map fst names)" by simp
  note T = clear_doc_removes_origin [OF wf, of "''tactics''"]
  have owned: "lookup ?objs ''tacn'' ''simpl'' = Some (''tactics'', ''tacn'', ''coq:tacn.simpl'')"
    by (simp add: lookup_def)
  from T have "clear_doc ?objs ''tactics'' =
      map (\<lambda>(subdomain, names).
             (subdomain, filter (\<lambda>(name, (docname, _, _)). docname \<noteq> ''tactics'') names)) ?objs"
    by blast
  then have a: "clear_doc ?objs ''tactics'' =
     [(''cmd'', [(''Print'', ''vernac'', ''cmd'', ''coq:cmd.print'')]),
      (''tacn'', [(''auto'', ''ltac'', ''tacn'', ''coq:tacn.auto'')])]"
    by simp
  from T owned have b: "resolve_xref (clear_doc ?objs ''tactics'') ''tacn'' ''simpl'' = Inr None"
    by (metis list.inject list.distinct(1))
  from a b show ?thesis by (rule conjI)
qed

subsection \<open>The subdomain indices\<close>

lemma bucket_items_result:
  assumes "bucket_items docnames items c0 = Inr c"
  shows "c = fold add_entry (map to_entry (filter (listed docnames) items)) c0"
  using assms
proof (induction docnames items c0 rule: bucket_items.induct)
  case (1 docnames content)
  then show ?case by simp
next
  case (2 docnames itemname docname uu anchor rest content)
  show ?case
  proof (cases "skipped docnames docname")
    case True
    then have "\<not> listed docnames (itemname, docname, uu, anchor)"
      by (simp add: listed_def)
    with True "2.prems" "2.IH"(1) show ?thesis by simp
  next
    case False
    with "2.prems" obtain ch more where name: "itemname = ch # more"
      by (cases itemname) auto
    let ?key = "lower [ch]"
    let ?entries = "case map_of content ?key of None \<Rightarrow> [] | Some es \<Rightarrow> es"
    let ?content = "AList.update ?key (?entries @ [(itemname, 0, docname, anchor)]) content"
    from "2.prems" False have "bucket_items docnames rest ?content = Inr c"
      by (simp add: name Let_def)
    from "2.IH"(2) [OF False name refl refl this]
    have "c = fold add_entry (map to_entry (filter (listed docnames) rest)) ?content" .
    moreover have "add_entry (to_entry (itemname, docname, uu, anchor)) content = ?content"
      by (simp add: add_entry_def to_entry_def bucket_key_def name)
    moreover have "listed docnames (itemname, docname, uu, anchor)"
      using False by (simp add: listed_def)
    ultimately show ?thesis by simp
  qed
qed

lemma bucket_items_succeeds:
  assumes "[] \<notin> fst ` set items"
  shows "\<exists>c. bucket_items docnames items c0 = Inr c"
  using assms
proof (induction docnames items c0 rule: bucket_items.induct)
  case (1 docnames content)
  show ?case by simp
next
  case (2 docnames itemname docname uu anchor rest content)
  from "2.prems" obtain ch more where name: "itemname = ch # more"
    by (cases itemname) auto
  from "2.prems" have rest: "[] \<notin> fst ` set rest" by auto
  show ?case
  proof (cases "skipped docnames docname")
    case True
    with "2.IH"(1) [OF True rest] show ?thesis by simp
  next
    case False
    with "2.IH"(2) [OF False name refl refl rest] show ?thesis
      by (simp add: name Let_def)
  qed
qed

lemma chain_items_result:
  assumes "chain_items objs subdomains = Inr items"
  shows "items = concat (map (\<lambda>s. case map_of objs s of None \<Rightarrow> [] | Some names \<Rightarrow> names) subdomains)"
  using assms
  by (induction subdomains arbitrary: items) (auto split: option.splits sum.splits)

lemma chain_items_succeeds:
  assumes "set subdomains \<subseteq> fst ` set objs"
  shows "\<exists>items. chain_items objs subdomains = Inr items"
  using assms
proof (induction subdomains)
  case Nil
  show ?case by simp
next
  case (Cons s subdomains)
  then have "s \<in> fst ` set objs" by simp
  from map_of_key [OF this] obtain names where "map_of objs s = Some names" ..
  moreover from Cons obtain items where "chain_items objs subdomains = Inr items" by auto
  ultimately show ?case by simp
qed

lemma map_of_add_entry:
  "map_of (add_entry e c) k =
     (if k = bucket_key e
      then Some ((case map_of c k of None \<Rightarrow> [] | Some es \<Rightarrow> es) @ [e])
      else map_of c k)"
  by (simp add: add_entry_def update_conv')

lemma keys_add_entry: "fst ` set (add_entry e c) = insert (bucket_key e) (fst ` set c)"
  by (simp add: add_entry_def dom_update)

lemma distinct_add_entry: "distinct (map fst c) \<Longrightarrow> distinct (map fst (add_entry e c))"
  by (simp add: add_entry_def distinct_update)

lemma fold_add_entry:
  "map_of (fold add_entry es c) k =
     (if filter (\<lambda>e. bucket_key e = k) es = [] then map_of c k
      else Some ((case map_of c k of None \<Rightarrow> [] | Some l \<Rightarrow> l) @ filter (\<lambda>e. bucket_key e = k) es))"
proof (induction es arbitrary: c)
  case Nil
  show ?case by simp
next
  case (Cons e es)
  show ?case
    by (simp add: Cons.IH map_of_add_entry)
qed

lemma keys_fold_add_entry:
  "fst ` set (fold add_entry es c) = fst ` set c \<union> bucket_key ` set es"
  by (induction es arbitrary: c) (auto simp add: keys_add_entry)

lemma distinct_fold_add_entry:
  "distinct (map fst c) \<Longrightarrow> distinct (map fst (fold add_entry es c))"
  by (induction es arbitrary: c) (auto simp add: distinct_add_entry)


lemma sorted_key_prefix:
  fixes g :: "'a \<Rightarrow> 'b :: linorder"
  assumes "sorted (map g es)" and "\<forall>e \<in> set es. k \<le> g e"
  shows "filter (\<lambda>e. g e = k) es @ filter (\<lambda>e. g e \<noteq> k) es = es"
  using assms
proof (induction es)
  case Nil
  show ?case by simp
next
  case (Cons e es)
  show ?case
  proof (cases "g e = k")
    case True
    with Cons show ?thesis by simp
  next
    case False
    with Cons.prems have "k < g e" by auto
    with Cons.prems have "\<forall>x \<in> set es. g x \<noteq> k" by auto
    then have "filter (\<lambda>e. g e = k) es = []" "filter (\<lambda>e. g e \<noteq> k) es = es"
      by (simp_all add: filter_empty_conv filter_id_conv)
    with False show ?thesis by simp
  qed
qed

lemma concat_buckets:
  fixes g :: "'a \<Rightarrow> 'b :: linorder"
  assumes "sorted (map fst cs)" and "distinct (map fst cs)"
    and "\<forall>p \<in> set cs. snd p = filter (\<lambda>e. g e = fst p) es"
    and "fst ` set cs = g ` set es"
    and "sorted (map g es)"
  shows "concat (map snd cs) = es"
  using assms
proof (induction cs arbitrary: es)
  case Nil
  then show ?case by simp
next
  case (Cons p cs)
  let ?k = "fst p"
  let ?rest = "filter (\<lambda>e. g e \<noteq> ?k) es"
  from Cons.prems(1) have least: "\<forall>q \<in> set cs. ?k \<le> fst q" and sorted_cs: "sorted (map fst cs)"
    by simp_all
  from Cons.prems(2) have fresh: "?k \<notin> fst ` set cs" and distinct_cs: "distinct (map fst cs)"
    by simp_all
  from Cons.prems(3) have head: "snd p = filter (\<lambda>e. g e = ?k) es"
    and tail: "\<forall>q \<in> set cs. snd q = filter (\<lambda>e. g e = fst q) es"
    by simp_all
  from Cons.prems(4) have keys: "insert ?k (fst ` set cs) = g ` set es" by simp
  have low: "\<forall>e \<in> set es. ?k \<le> g e"
  proof
    fix e assume "e \<in> set es"
    with keys have "g e = ?k \<or> g e \<in> fst ` set cs" by blast
    with least show "?k \<le> g e" by auto
  qed
  have split: "filter (\<lambda>e. g e = ?k) es @ ?rest = es"
    using Cons.prems(5) low by (rule sorted_key_prefix)
  have tail': "\<forall>q \<in> set cs. snd q = filter (\<lambda>e. g e = fst q) ?rest"
  proof
    fix q assume q: "q \<in> set cs"
    then have "fst q \<in> fst ` set cs" by (rule imageI)
    with fresh have "fst q \<noteq> ?k" by metis
    then have "filter (\<lambda>e. g e = fst q) ?rest = filter (\<lambda>e. g e = fst q) es"
      by (auto intro: filter_cong)
    with tail q show "snd q = filter (\<lambda>e. g e = fst q) ?rest" by simp
  qed
  have keys': "fst ` set cs = g ` set ?rest"
  proof
    show "fst ` set cs \<subseteq> g ` set ?rest"
    proof
      fix k assume k: "k \<in> fst ` set cs"
      with keys have "k \<in> g ` set es" by blast
      moreover from k fresh have "k \<noteq> ?k" by metis
      ultimately show "k \<in> g ` set ?rest" by auto
    qed
    show "g ` set ?rest \<subseteq> fst ` set cs"
      using keys by auto
  qed
  have "sorted (map g ?rest)"
    using Cons.prems(5) by (rule sorted_filter)
  from Cons.IH [OF sorted_cs distinct_cs tail' keys' this]
  have "concat (map snd cs) = ?rest" .
  with head split show ?case by simp
qed

lemma take1_mono:
  fixes xs ys :: "'a :: linorder list"
  assumes "xs \<le> ys"
  shows "take 1 xs \<le> take 1 ys"
proof (cases xs)
  case Nil
  then show ?thesis by simp
next
  case (Cons x xs')
  with assms obtain y ys' where "ys = y # ys'" by (cases ys) auto
  with Cons assms show ?thesis by auto
qed

lemma sorted_bucket_keys:
  assumes "sorted (map (\<lambda>x. lower (fst x)) items)"
  shows "sorted (map bucket_key (map to_entry items))"
proof -
  have "sorted_wrt (\<lambda>x y. lower (fst x) \<le> lower (fst y)) items"
    using assms by (simp add: sorted_map)
  then have "sorted_wrt (\<lambda>x y. bucket_key (to_entry x) \<le> bucket_key (to_entry y)) items"
  proof (rule sorted_wrt_mono_rel [rotated])
    fix x y :: "string \<times> entry"
    assume "lower (fst x) \<le> lower (fst y)"
    then have "take 1 (lower (fst x)) \<le> take 1 (lower (fst y))" by (rule take1_mono)
    then show "bucket_key (to_entry x) \<le> bucket_key (to_entry y)"
      by (simp add: bucket_key_def to_entry_def lower_def take_map)
  qed
  then show ?thesis by (simp add: sorted_map comp_def)
qed

lemma generate_result:
  assumes "generate subdomains objs docnames = Inr (content, collapse)"
  defines "items \<equiv> concat (map (\<lambda>s. case map_of objs s of None \<Rightarrow> [] | Some names \<Rightarrow> names) subdomains)"
  defines "es \<equiv> map to_entry (filter (listed docnames) (sort_key (\<lambda>x. lower (fst x)) items))"
  shows "\<not> collapse" and "concat (map snd content) = es"
    and "sorted (map fst content)" and "distinct (map fst content)"
    and "\<forall>p \<in> set content. snd p \<noteq> [] \<and> snd p = filter (\<lambda>e. bucket_key e = fst p) es"
proof -
  from assms(1) obtain items' c where chain: "chain_items objs subdomains = Inr items'"
    and bucket: "bucket_items docnames (sort_key (\<lambda>x. lower (fst x)) items') [] = Inr c"
    and out: "content = sort_key fst c" "collapse = False"
    by (auto simp add: generate_def Let_def split: sum.splits)
  from chain_items_result [OF chain] have items': "items' = items" by (simp add: items_def)
  from bucket_items_result [OF bucket] have c: "c = fold add_entry es []"
    by (simp add: es_def items')
  have c_distinct: "distinct (map fst c)"
    unfolding c by (rule distinct_fold_add_entry) simp
  have c_keys: "fst ` set c = bucket_key ` set es"
    unfolding c by (simp add: keys_fold_add_entry)
  have c_buckets: "snd p \<noteq> [] \<and> snd p = filter (\<lambda>e. bucket_key e = fst p) es" if "p \<in> set c" for p
  proof -
    from that have "(fst p, snd p) \<in> set c" by simp
    with c_distinct have "map_of c (fst p) = Some (snd p)" by (rule map_of_is_SomeI)
    then show ?thesis
      unfolding c by (auto simp add: fold_add_entry split: if_splits)
  qed
  show "\<not> collapse" using out by simp
  show sorted_keys: "sorted (map fst content)"
    unfolding out by (rule sorted_sort_key)
  show distinct_keys: "distinct (map fst content)"
    using c_distinct unfolding out by (simp add: distinct_map)
  show buckets: "\<forall>p \<in> set content. snd p \<noteq> [] \<and> snd p = filter (\<lambda>e. bucket_key e = fst p) es"
  proof
    fix p assume "p \<in> set content"
    then have "p \<in> set c" unfolding out by simp
    then show "snd p \<noteq> [] \<and> snd p = filter (\<lambda>e. bucket_key e = fst p) es"
      by (rule c_buckets)
  qed
  have "sorted (map (\<lambda>x. lower (fst x)) (filter (listed docnames) (sort_key (\<lambda>x. lower (fst x)) items)))"
    by (intro sorted_filter sorted_sort_key)
  then have "sorted (map bucket_key es)"
    unfolding es_def by (rule sorted_bucket_keys)
  moreover have "fst ` set content = bucket_key ` set es"
    using c_keys unfolding out by simp
  ultimately show "concat (map snd content) = es"
    using sorted_keys distinct_keys buckets by (intro concat_buckets) auto
qed


lemma to_entry_eq: "to_entry = (\<lambda>(name, (docname, _, anchor)). (name, 0, docname, anchor))"
  by (auto simp add: to_entry_def fun_eq_iff)

lemma listed_eq:
  "listed docnames =
     (\<lambda>(name, (docname, _, _)). case docnames of None \<Rightarrow> True | Some ds \<Rightarrow> ds = [] \<or> docname \<in> set ds)"
  by (auto simp add: listed_def skipped_def fun_eq_iff split: option.splits)

lemma bucket_key_letter: "fst e \<noteq> [] \<Longrightarrow> bucket_key e = [lower_char (hd (fst e))]"
  by (cases "fst e") (simp_all add: bucket_key_def lower_def)

text \<open>
  Claim C7, amended: when the subdomains of the index are subdomains of the registry and no
  registered name is empty, \<open>generate\<close> returns buckets, not collapsed, whose entries
  read in order are the items of the subdomains, sorted stably by their lower-cased names,
  restricted to the given documents when a non-empty restriction is given (none, or an
  empty one, keeps every item); the buckets come in sorted order of their distinct letters,
  none is empty, and each holds, in that order, exactly the entries whose name starts with
  its letter in lower case.
\<close>

theorem generate_sorted_buckets:
  assumes known: "set subdomains \<subseteq> fst ` set objs"
    and named: "\<forall>s \<in> set subdomains. \<forall>names. map_of objs s = Some names \<longrightarrow> [] \<notin> fst ` set names"
  shows "\<exists>content.
     generate subdomains objs docnames = Inr (content, False) \<and>
     concat (map snd content) =
       map (\<lambda>(name, (docname, _, anchor)). (name, 0, docname, anchor))
         (filter (\<lambda>(name, (docname, _, _)).
                    case docnames of None \<Rightarrow> True | Some ds \<Rightarrow> ds = [] \<or> docname \<in> set ds)
            (sort_key (\<lambda>x. lower (fst x))
               (concat (map (\<lambda>s. case map_of objs s of None \<Rightarrow> [] | Some names \<Rightarrow> names)
                  subdomains)))) \<and>
     sorted (map (\<lambda>e. lower (fst e)) (concat (map snd content))) \<and>
     sorted (map fst content) \<and> distinct (map fst content) \<and>
     (\<forall>(letter, entries) \<in> set content.
        entries \<noteq> [] \<and>
        entries = filter (\<lambda>e. [lower_char (hd (fst e))] = letter) (concat (map snd content)) \<and>
        (\<forall>e \<in> set entries. fst e \<noteq> [] \<and> letter = [lower_char (hd (fst e))]))"
proof -
  let ?items = "concat (map (\<lambda>s. case map_of objs s of None \<Rightarrow> [] | Some names \<Rightarrow> names) subdomains)"
  let ?sorted = "sort_key (\<lambda>x. lower (fst x)) ?items"
  let ?es = "map to_entry (filter (listed docnames) ?sorted)"
  from chain_items_succeeds [OF known] obtain items where
    chain: "chain_items objs subdomains = Inr items" ..
  from chain_items_result [OF chain] have items: "items = ?items" .
  have nonempty: "[] \<notin> fst ` set ?items"
    using named by (auto split: option.splits) force
  then have "[] \<notin> fst ` set ?sorted" by simp
  from bucket_items_succeeds [OF this] obtain c where
    bucket: "bucket_items docnames ?sorted [] = Inr c" ..
  let ?content = "sort_key fst c"
  have gen: "generate subdomains objs docnames = Inr (?content, False)"
    by (simp add: generate_def chain items bucket)
  define es where "es = map to_entry (filter (listed docnames) ?sorted)"
  define content where "content = sort_key fst c"
  note result = generate_result [OF gen, folded es_def content_def]
  have flat: "concat (map snd content) = es" by (rule result(2))
  have names: "fst e \<noteq> []" if "e \<in> set es" for e
  proof -
    from that have "e \<in> to_entry ` set (filter (listed docnames) ?sorted)"
      by (simp only: es_def set_map)
    then obtain item where item: "item \<in> set (filter (listed docnames) ?sorted)"
      and e: "e = to_entry item" by (rule imageE)
    from item have "item \<in> set ?sorted" by (simp only: set_filter mem_Collect_eq)
    then have "item \<in> set ?items" by (simp only: set_sort)
    then have "fst item \<in> fst ` set ?items" by (rule imageI)
    with nonempty have "fst item \<noteq> []" by metis
    then show ?thesis by (simp add: e to_entry_def)
  qed
  have "sorted (map (\<lambda>x. lower (fst x)) (filter (listed docnames) ?sorted))"
    by (intro sorted_filter sorted_sort_key)
  then have ordered: "sorted (map (\<lambda>e. lower (fst e)) es)"
    by (simp add: es_def comp_def to_entry_def)
  have buckets: "\<forall>(letter, entries) \<in> set content.
        entries \<noteq> [] \<and>
        entries = filter (\<lambda>e. [lower_char (hd (fst e))] = letter) es \<and>
        (\<forall>e \<in> set entries. fst e \<noteq> [] \<and> letter = [lower_char (hd (fst e))])"
  proof (rule ballI, rule prod.case_eq_if [THEN iffD2])
    fix p assume "p \<in> set content"
    with result(5) have ne: "snd p \<noteq> []"
      and bucket: "snd p = filter (\<lambda>e. bucket_key e = fst p) es"
      by blast+
    have same: "filter (\<lambda>e. bucket_key e = fst p) es =
        filter (\<lambda>e. [lower_char (hd (fst e))] = fst p) es"
      by (rule filter_cong [OF refl]) (simp add: bucket_key_letter names)
    have members: "\<forall>e \<in> set (snd p). fst e \<noteq> [] \<and> fst p = [lower_char (hd (fst e))]"
    proof
      fix e assume "e \<in> set (snd p)"
      then have "e \<in> set (filter (\<lambda>e. [lower_char (hd (fst e))] = fst p) es)"
        by (simp only: bucket same)
      then have "e \<in> set es \<and> [lower_char (hd (fst e))] = fst p"
        by (simp only: set_filter mem_Collect_eq)
      with names show "fst e \<noteq> [] \<and> fst p = [lower_char (hd (fst e))]" by metis
    qed
    from ne bucket same members
    show "snd p \<noteq> [] \<and>
        snd p = filter (\<lambda>e. [lower_char (hd (fst e))] = fst p) es \<and>
        (\<forall>e \<in> set (snd p). fst e \<noteq> [] \<and> fst p = [lower_char (hd (fst e))])"
      by metis
  qed
  show ?thesis
  proof (intro exI conjI)
    show "generate subdomains objs docnames = Inr (content, False)"
      using gen by (simp only: content_def)
    show "concat (map snd content) =
       map (\<lambda>(name, (docname, _, anchor)). (name, 0, docname, anchor))
         (filter (\<lambda>(name, (docname, _, _)).
                    case docnames of None \<Rightarrow> True | Some ds \<Rightarrow> ds = [] \<or> docname \<in> set ds)
            ?sorted)"
      using flat by (simp only: es_def to_entry_eq listed_eq)
    show "sorted (map (\<lambda>e. lower (fst e)) (concat (map snd content)))"
      using ordered by (simp only: flat)
    show "sorted (map fst content)" by (rule result(3))
    show "distinct (map fst content)" by (rule result(4))
    show "\<forall>(letter, entries) \<in> set content.
        entries \<noteq> [] \<and>
        entries = filter (\<lambda>e. [lower_char (hd (fst e))] = letter) (concat (map snd content)) \<and>
        (\<forall>e \<in> set entries. fst e \<noteq> [] \<and> letter = [lower_char (hd (fst e))])"
      using buckets by (simp only: flat)
  qed
qed


theorem generate_sorted_buckets_witness:
  "\<exists>content.
     generate [''tacn'', ''cmd'']
       [(''cmd'', [(''Set'', ''vernac'', ''cmd'', ''coq:cmd.set''),
                   (''abort'', ''proofs'', ''cmd'', ''coq:cmd.abort'')]),
        (''tacn'', [(''simpl'', ''vernac'', ''tacn'', ''coq:tacn.simpl''),
                    (''Apply'', ''vernac'', ''tacn'', ''coq:tacn.apply'')])]
       (Some [''vernac'']) = Inr (content, False) \<and>
     content =
       [(''a'', [(''Apply'', 0, ''vernac'', ''coq:tacn.apply'')]),
        (''s'', [(''Set'', 0, ''vernac'', ''coq:cmd.set''),
                 (''simpl'', 0, ''vernac'', ''coq:tacn.simpl'')])] \<and>
     sorted (map (\<lambda>e. lower (fst e)) (concat (map snd content))) \<and>
     sorted (map fst content) \<and> distinct (map fst content)"
proof -
  let ?objs = "[(''cmd'', [(''Set'', ''vernac'', ''cmd'', ''coq:cmd.set''),
                   (''abort'', ''proofs'', ''cmd'', ''coq:cmd.abort'')]),
        (''tacn'', [(''simpl'', ''vernac'', ''tacn'', ''coq:tacn.simpl''),
                    (''Apply'', ''vernac'', ''tacn'', ''coq:tacn.apply'')])]"
  let ?subdomains = "[''tacn'', ''cmd'']"
  have known: "set ?subdomains \<subseteq> fst ` set ?objs" by simp
  have named: "\<forall>s \<in> set ?subdomains. \<forall>names. map_of ?objs s = Some names \<longrightarrow> [] \<notin> fst ` set names"
    by auto
  have run: "generate ?subdomains ?objs (Some [''vernac'']) =
      Inr ([(''a'', [(''Apply'', 0, ''vernac'', ''coq:tacn.apply'')]),
        (''s'', [(''Set'', 0, ''vernac'', ''coq:cmd.set''),
                 (''simpl'', 0, ''vernac'', ''coq:tacn.simpl'')])], False)"
    by code_simp
  from generate_sorted_buckets [OF known named, of "Some [''vernac'']"] obtain content where
    "generate ?subdomains ?objs (Some [''vernac'']) = Inr (content, False)"
    "sorted (map (\<lambda>e. lower (fst e)) (concat (map snd content)))"
    "sorted (map fst content)" "distinct (map fst content)"
    by blast
  with run show ?thesis by auto
qed

text \<open>
  Claim C7, as stated, fails: an empty restriction is given, and the entry of a document
  outside it is listed.
\<close>

theorem generate_empty_restriction:
  "generate [''tacn''] [(''tacn'', [(''simpl'', ''tactics'', ''tacn'', ''coq:tacn.simpl'')])] (Some []) =
     Inr ([(''s'', [(''simpl'', 0, ''tactics'', ''coq:tacn.simpl'')])], False) \<and>
   ''tactics'' \<notin> set []"
  by code_simp

lemma generate_entries_registered:
  assumes gen: "generate subdomains objs docnames = Inr (content, collapse)"
    and p: "p \<in> set content" and e: "e \<in> set (snd p)"
  shows "\<exists>s \<in> set subdomains. \<exists>names objtype.
           map_of objs s = Some names \<and>
           (fst e, fst (snd (snd e)), objtype, snd (snd (snd e))) \<in> set names"
proof -
  let ?items = "concat (map (\<lambda>s. case map_of objs s of None \<Rightarrow> [] | Some names \<Rightarrow> names) subdomains)"
  let ?kept = "filter (listed docnames) (sort_key (\<lambda>x. lower (fst x)) ?items)"
  from p e have "e \<in> set (concat (map snd content))" by auto
  then have "e \<in> to_entry ` set ?kept"
    by (simp only: generate_result(2) [OF gen] set_map)
  then obtain item where item: "item \<in> set ?kept" and entry: "e = to_entry item"
    by (rule imageE)
  from item have "item \<in> set (sort_key (\<lambda>x. lower (fst x)) ?items)"
    by (simp only: set_filter mem_Collect_eq)
  then have "item \<in> set ?items" by (simp only: set_sort)
  then obtain s names where "s \<in> set subdomains" "map_of objs s = Some names" "item \<in> set names"
    by (auto split: option.splits) metis
  moreover obtain name docname objtype anchor where "item = (name, docname, objtype, anchor)"
    by (cases item)
  ultimately show ?thesis
    unfolding entry by (auto simp add: to_entry_def)
qed

text \<open>
  Claim C8, amended: the label with a single trailing period removed (unless the name ends
  with three periods) and the index suffix appended, after a space, when the kind has a
  non-empty one, is the label of the main index entry that \<open>_add_index_entry\<close> adds for a
  name that does not start with an underscore; every entry that the subdomain index
  builder produces carries a registered name itself, with its document and its target.
\<close>

theorem index_entry_labels:
  "(\<not> startswith name ''_'' \<longrightarrow>
      add_index_entry d name target entries =
        entries @
        [((if (\<exists>b. name = b @ ''.'') \<and> (\<nexists>p. name = p @ ''...'') then butlast name else name) @
          (case self_index_suffix d of
             None \<Rightarrow> []
           | Some sfx \<Rightarrow> if sfx = [] then [] else '' '' @ sfx), target)]) \<and>
   (startswith name ''_'' \<longrightarrow> add_index_entry d name target entries = entries) \<and>
   (generate subdomains objs docnames = Inr (content, collapse) \<longrightarrow>
      (\<forall>(letter, es) \<in> set content. \<forall>(display, n, docname, anchor) \<in> set es.
         \<exists>s \<in> set subdomains. \<exists>names objtype.
           map_of objs s = Some names \<and> (display, docname, objtype, anchor) \<in> set names))"
proof (intro conjI impI)
  assume "\<not> startswith name ''_''"
  then show "add_index_entry d name target entries =
        entries @
        [((if (\<exists>b. name = b @ ''.'') \<and> (\<nexists>p. name = p @ ''...'') then butlast name else name) @
          (case self_index_suffix d of
             None \<Rightarrow> []
           | Some sfx \<Rightarrow> if sfx = [] then [] else '' '' @ sfx), target)]"
    by (simp add: add_index_entry_def index_text_def endswith_iff split: option.splits)
next
  assume "startswith name ''_''"
  then show "add_index_entry d name target entries = entries"
    by (simp add: add_index_entry_def)
next
  assume gen: "generate subdomains objs docnames = Inr (content, collapse)"
  show "\<forall>(letter, es) \<in> set content. \<forall>(display, n, docname, anchor) \<in> set es.
         \<exists>s \<in> set subdomains. \<exists>names objtype.
           map_of objs s = Some names \<and> (display, docname, objtype, anchor) \<in> set names"
    using generate_entries_registered [OF gen]
    by (simp only: case_prod_unfold) blast
qed

theorem index_entry_labels_witness:
  "add_index_entry (VernacObject ''vernac'') ''Print All.'' ''coq:cmd.print-all'' [] =
     [(''Print All (cmd)'', ''coq:cmd.print-all'')] \<and>
   add_index_entry (VernacObject ''vernac'') ''_internal'' ''coq:cmd.internal'' [] = [] \<and>
   (\<exists>names objtype.
      map_of [(''tacn'', [(''simpl'', ''tactics'', ''tacn'', ''coq:tacn.simpl'')])] ''tacn'' = Some names \<and>
      (''simpl'', ''tactics'', objtype, ''coq:tacn.simpl'') \<in> set names)"
proof -
  let ?d = "VernacObject ''vernac''"
  let ?objs = "[(''tacn'', [(''simpl'', ''tactics'', ''tacn'', ''coq:tacn.simpl'')])]"
  let ?content = "[(''s'', [(''simpl'', 0 :: nat, ''tactics'', ''coq:tacn.simpl'')])]"
  note T = index_entry_labels [where d = ?d and entries = "[]" and subdomains = "[''tacn'']"
      and objs = ?objs and docnames = None and content = ?content and collapse = False]
  have plain: "\<not> startswith ''Print All.'' ''_''" by code_simp
  have hidden: "startswith ''_internal'' ''_''" by code_simp
  have period: "\<exists>b. ''Print All.'' = b @ ''.''"
  proof -
    have "endswith ''Print All.'' ''.''" by code_simp
    then show ?thesis by (simp add: endswith_iff)
  qed
  have no_ellipsis: "\<nexists>p. ''Print All.'' = p @ ''...''"
  proof -
    have "\<not> endswith ''Print All.'' ''...''" by code_simp
    then show ?thesis by (simp add: endswith_iff)
  qed
  have suffix: "self_index_suffix ?d = Some ''(cmd)''"
    by (simp add: VernacObject_def self_index_suffix_def)
  have run: "generate [''tacn''] ?objs None = Inr (?content, False)" by code_simp
  from T [of "''Print All.''" "''coq:cmd.print-all''"] plain period no_ellipsis
  have a: "add_index_entry ?d ''Print All.'' ''coq:cmd.print-all'' [] =
     [(''Print All (cmd)'', ''coq:cmd.print-all'')]"
    by (simp add: suffix)
  from T [of "''_internal''" "''coq:cmd.internal''"] hidden
  have b: "add_index_entry ?d ''_internal'' ''coq:cmd.internal'' [] = []"
    by blast
  from T [of "''simpl''" "''coq:tacn.simpl''"] run
  have "\<forall>(letter, es) \<in> set ?content. \<forall>(display, n, docname, anchor) \<in> set es.
         \<exists>s \<in> set [''tacn'']. \<exists>names objtype.
           map_of ?objs s = Some names \<and> (display, docname, objtype, anchor) \<in> set names"
    by blast
  then have c: "\<exists>names objtype. map_of ?objs ''tacn'' = Some names \<and>
      (''simpl'', ''tactics'', objtype, ''coq:tacn.simpl'') \<in> set names"
    by simp
  from a b c show ?thesis by blast
qed

text \<open>
  Claim C8, as stated, fails: for the tactic \<open>simpl\<close> the main index gets the label
  \<open>simpl (tacn)\<close>, while the entry of the tactic index shows \<open>simpl\<close>.
\<close>

theorem generate_label_is_name:
  "(case add_target_and_index id (TacticNotationObject ''tactics'') initial_env (Some ''simpl'') of
      Inl e \<Rightarrow> False
    | Inr (st, target) \<Rightarrow>
        target = Some ''coq:tacn.simpl'' \<and>
        index_entries st = [(''simpl (tacn)'', ''coq:tacn.simpl'')] \<and>
        generate [''tacn''] (coq_objects st) None =
          Inr ([(''s'', [(''simpl'', 0, ''tactics'', ''coq:tacn.simpl'')])], False))"
  by code_simp

end
